theory Spec2Isabelle
  imports Main
begin

section \<open>Strings of the host language\<close>

text \<open>
  A JavaScript string is a sequence of code units. The model uses \<^typ>\<open>string\<close>, one
  \<^typ>\<open>char\<close> per code unit, which covers the code units below 256. The character
  classes below are the ones the source's regular expressions and \<^verbatim>\<open>trim\<close> use,
  restricted to that range.
\<close>

definition newline :: char where
  "newline = CHR 0x0A"

definition dquote :: char where
  "dquote = CHR 0x22"

definition is_word_char :: "char \<Rightarrow> bool" where
  \<comment> \<open>the class \<^verbatim>\<open>[a-zA-Z0-9_]\<close>, which is also \<^verbatim>\<open>\w\<close>\<close>
  "is_word_char c = (let n = (of_char c :: nat) in
     (97 \<le> n \<and> n \<le> 122) \<or> (65 \<le> n \<and> n \<le> 90) \<or> (48 \<le> n \<and> n \<le> 57) \<or> n = 95)"

definition is_white_space :: "char \<Rightarrow> bool" where
  \<comment> \<open>WhiteSpace and LineTerminator of the language: tab, LF, VT, FF, CR, space, NBSP;
      the class \<^verbatim>\<open>\s\<close> and the characters \<^verbatim>\<open>trim\<close> strips\<close>
  "is_white_space c =
     (c \<in> set [CHR 0x09, CHR 0x0A, CHR 0x0B, CHR 0x0C, CHR 0x0D, CHR 0x20, CHR 0xA0])"

definition trim :: "string \<Rightarrow> string" where
  "trim s = rev (dropWhile is_white_space (rev (dropWhile is_white_space s)))"

definition startsWith :: "string \<Rightarrow> string \<Rightarrow> bool" where
  "startsWith s p = (take (length p) s = p)"

fun split_newline :: "string \<Rightarrow> string list" where
  \<comment> \<open>\<^verbatim>\<open>text.split('\n')\<close>: never empty, the empty text gives one empty line\<close>
  "split_newline [] = [[]]"
| "split_newline (c # cs) =
     (if c = newline then [] # split_newline cs
      else (case split_newline cs of
              [] \<Rightarrow> [[c]]
            | l # ls \<Rightarrow> (c # l) # ls))"

fun join_newline :: "string list \<Rightarrow> string" where
  \<comment> \<open>\<^verbatim>\<open>xs.join('\n')\<close>\<close>
  "join_newline [] = []"
| "join_newline [x] = x"
| "join_newline (x # y # ys) = x @ [newline] @ join_newline (y # ys)"

definition triple_quote :: string where
  "triple_quote = [dquote, dquote, dquote]"

fun count_triple_quotes :: "string \<Rightarrow> nat" where
  \<comment> \<open>\<^verbatim>\<open>(s.match(/"""/g) || []).length\<close>: non-overlapping occurrences, left to right\<close>
  "count_triple_quotes (a # b # c # rest) =
     (if a = dquote \<and> b = dquote \<and> c = dquote
      then Suc (count_triple_quotes rest)
      else count_triple_quotes (b # c # rest))"
| "count_triple_quotes _ = 0"

definition count_char :: "char \<Rightarrow> string \<Rightarrow> int" where
  \<comment> \<open>\<^verbatim>\<open>(s.match(/{/g) || []).length\<close> for a one-character pattern\<close>
  "count_char c s = int (length (filter (\<lambda>x. x = c) s))"

section \<open>The declaration pattern\<close>

text \<open>
  \<^verbatim>\<open>/^(type|enum|union|interface|scalar|input)\s+(\w+)([^a-zA-Z0-9_]|$)/\<close>, applied to a
  line with \<^verbatim>\<open>line.match\<close>. The alternatives are tried in the order written; after a
  keyword the greedy \<^verbatim>\<open>\s+\<close> and \<^verbatim>\<open>\w+\<close> take the longest run first. The result is
  the pair of the first two capture groups.
\<close>

definition kind_keywords :: "string list" where
  "kind_keywords = [''type'', ''enum'', ''union'', ''interface'', ''scalar'', ''input'']"

definition match_after_keyword :: "string \<Rightarrow> string option" where
  \<comment> \<open>\<^verbatim>\<open>\s+(\w+)([^a-zA-Z0-9_]|$)\<close> at the start of \<open>r\<close>; the captured name\<close>
  "match_after_keyword r =
     (let ws = takeWhile is_white_space r;
          r1 = dropWhile is_white_space r;
          nm = takeWhile is_word_char r1;
          r2 = dropWhile is_word_char r1
      in if ws \<noteq> [] \<and> nm \<noteq> [] \<and> (r2 = [] \<or> \<not> is_word_char (hd r2))
         then Some nm else None)"

fun match_alternatives :: "string list \<Rightarrow> string \<Rightarrow> (string \<times> string) option" where
  "match_alternatives [] l = None"
| "match_alternatives (k # ks) l =
     (if startsWith l k
      then (case match_after_keyword (drop (length k) l) of
              Some n \<Rightarrow> Some (k, n)
            | None \<Rightarrow> match_alternatives ks l)
      else match_alternatives ks l)"

definition definitionPattern :: "string \<Rightarrow> (string \<times> string) option" where
  "definitionPattern l = match_alternatives kind_keywords l"

section \<open>The scanner: parseGraphQLDefinitions\<close>

record definition_entry =
  def_kind :: string
  def_name :: string
  def_line :: nat
  def_text :: string
  def_documentation :: "string option"

record scan_state =
  currentDoc :: "string list"
  inMultiLineComment :: bool
  definitions :: "definition_entry list"

definition initial_state :: scan_state where
  "initial_state = \<lparr>currentDoc = [], inMultiLineComment = False, definitions = []\<rparr>"

definition scan_line :: "scan_state \<Rightarrow> string \<Rightarrow> nat \<Rightarrow> scan_state" where
  \<comment> \<open>the callback of \<^verbatim>\<open>lines.forEach((line, index) => ...)\<close>\<close>
  "scan_line s l index =
     (let trimmed = trim l in
      if startsWith trimmed triple_quote then
        (let s1 = s\<lparr>currentDoc := currentDoc s @ [l]\<rparr>;
             quoteCount = count_triple_quotes trimmed
         in if quoteCount = 2 then s1
            else s1\<lparr>inMultiLineComment := \<not> inMultiLineComment s1\<rparr>)
      else if inMultiLineComment s then s\<lparr>currentDoc := currentDoc s @ [l]\<rparr>
      else if startsWith trimmed ''#'' then s\<lparr>currentDoc := currentDoc s @ [l]\<rparr>
      else (case definitionPattern l of
              Some (kind, name) \<Rightarrow>
                s\<lparr>definitions := definitions s @
                     [\<lparr>def_kind = kind, def_name = name, def_line = index,
                       def_text = trim l,
                       def_documentation =
                         (if length (currentDoc s) > 0
                          then Some (join_newline (currentDoc s)) else None)\<rparr>],
                   currentDoc := []\<rparr>
            | None \<Rightarrow>
                if length trimmed > 0 then s\<lparr>currentDoc := []\<rparr> else s))"

fun scan_lines :: "scan_state \<Rightarrow> nat \<Rightarrow> string list \<Rightarrow> scan_state" where
  \<comment> \<open>\<^verbatim>\<open>forEach\<close> from index \<open>i\<close> on\<close>
  "scan_lines s i [] = s"
| "scan_lines s i (l # ls) = scan_lines (scan_line s l i) (Suc i) ls"

definition parseGraphQLDefinitions :: "string \<Rightarrow> definition_entry list" where
  "parseGraphQLDefinitions text = definitions (scan_lines initial_state 0 (split_newline text))"

section \<open>The word under the cursor\<close>

text \<open>
  \<^verbatim>\<open>wordPattern.exec(text)\<close> for the global pattern \<^verbatim>\<open>/[a-zA-Z0-9_]+/g\<close>: the search starts
  at \<^verbatim>\<open>lastIndex\<close>, the match is the longest run of word characters from the first word
  character found, and \<^verbatim>\<open>lastIndex\<close> becomes the end of the match. The result is the
  match's index and text, or \<open>None\<close> for \<^verbatim>\<open>null\<close>.
\<close>

definition wordPattern_exec :: "string \<Rightarrow> nat \<Rightarrow> (nat \<times> string) option" where
  "wordPattern_exec text lastIndex =
     (let rest = drop lastIndex text;
          skipped = takeWhile (\<lambda>c. \<not> is_word_char c) rest;
          found = dropWhile (\<lambda>c. \<not> is_word_char c) rest
      in if found = [] then None
         else Some (lastIndex + length skipped, takeWhile is_word_char found))"

function word_at_loop :: "string \<Rightarrow> nat \<Rightarrow> nat \<Rightarrow> string option" where
  \<comment> \<open>\<^verbatim>\<open>while ((match = wordPattern.exec(text)) !== null) { if (...) { word = match[0]; break; } }\<close>\<close>
  "word_at_loop text lastIndex offset =
     (case wordPattern_exec text lastIndex of
        None \<Rightarrow> None
      | Some (index, m) \<Rightarrow>
          if index \<le> offset \<and> offset \<le> index + length m then Some m
          else word_at_loop text (index + length m) offset)"
  by pat_completeness auto
termination
proof (relation "measure (\<lambda>(t, lastIndex, offset). length t - lastIndex)", goal_cases)
  case 1
  show ?case by simp
next
  case (2 t lastIndex offset x2 index m)
  let ?rest = "drop lastIndex t"
  let ?skipped = "takeWhile (\<lambda>c. \<not> is_word_char c) ?rest"
  let ?found = "dropWhile (\<lambda>c. \<not> is_word_char c) ?rest"
  from 2 have ne: "?found \<noteq> []" and idx: "index = lastIndex + length ?skipped"
    and m: "m = takeWhile is_word_char ?found"
    by (auto simp: wordPattern_exec_def Let_def split: if_splits)
  from ne have "is_word_char (hd ?found)"
    using hd_dropWhile [of "\<lambda>c. \<not> is_word_char c" ?rest] by simp
  with ne have "0 < length m"
    unfolding m by (cases ?found) auto
  moreover from ne have "lastIndex < length t"
    by (cases "lastIndex < length t") auto
  ultimately have "length t - (index + length m) < length t - lastIndex"
    using idx by arith
  then show ?case by simp
qed

declare word_at_loop.simps [simp del]

definition word_at_cursor :: "string \<Rightarrow> nat \<Rightarrow> string option" where
  "word_at_cursor text offset = word_at_loop text 0 offset"

section \<open>Go to definition\<close>

record position =
  pos_line :: nat
  pos_character :: nat

record range =
  range_start :: position
  range_end :: position

record location =
  loc_uri :: string
  loc_range :: range

definition definition_range :: "definition_entry \<Rightarrow> range" where
  "definition_range d =
     \<lparr>range_start = \<lparr>pos_line = def_line d, pos_character = 0\<rparr>,
      range_end = \<lparr>pos_line = def_line d, pos_character = length (def_text d)\<rparr>\<rparr>"

text \<open>
  The document store and \<^verbatim>\<open>offsetAt\<close> belong to the protocol library: the store is a map
  from a URI to the text of the document, and \<open>offsetAt\<close> is a parameter of each handler.
  \<^verbatim>\<open>!word\<close> holds for \<^verbatim>\<open>null\<close> and for the empty string.
\<close>

definition onDefinition ::
  "(string \<Rightarrow> position \<Rightarrow> nat) \<Rightarrow> (string \<rightharpoonup> string) \<Rightarrow> string \<Rightarrow> position \<Rightarrow> location option"
where
  "onDefinition offsetAt documents uri pos =
     (case documents uri of
        None \<Rightarrow> None
      | Some text \<Rightarrow>
          (case word_at_cursor text (offsetAt text pos) of
             None \<Rightarrow> None
           | Some word \<Rightarrow>
               if word = [] then None
               else (case find (\<lambda>d. def_name d = word) (parseGraphQLDefinitions text) of
                       None \<Rightarrow> None
                     | Some d \<Rightarrow> Some \<lparr>loc_uri = uri, loc_range = definition_range d\<rparr>)))"

section \<open>Hover\<close>

text \<open>
  \<^verbatim>\<open>BUILTIN_SCALARS\<close> is an object literal. The lookup \<^verbatim>\<open>BUILTIN_SCALARS[word]\<close> reads an own
  property when there is one and otherwise follows the prototype chain to
  \<^verbatim>\<open>Object.prototype\<close>, whose properties are functions (and, for \<^verbatim>\<open>__proto__\<close>, the
  prototype object itself): values that are truthy and are not strings. A key found nowhere
  gives \<^verbatim>\<open>undefined\<close>, here \<open>None\<close>.
\<close>

datatype js_value =
  JSString string
| JSInherited string  \<comment> \<open>the value of the named property of \<^verbatim>\<open>Object.prototype\<close>\<close>

definition BUILTIN_SCALARS_own :: "(string \<times> string) list" where
  "BUILTIN_SCALARS_own =
     [(''String'',
       ''The String scalar type represents textual data, represented as UTF-8 character sequences.''),
      (''Int'',
       ''The Int scalar type represents non-fractional signed whole numeric values. Int can represent values between -(2^31) and 2^31 - 1.''),
      (''Float'',
       ''The Float scalar type represents signed double-precision fractional values as specified by IEEE 754.''),
      (''Boolean'',
       ''The Boolean scalar type represents true or false.''),
      (''ID'',
       ''The ID scalar type represents a unique identifier, often used to refetch an object or as the key for a cache. The ID type is serialized in the same way as a String.'')]"

definition Object_prototype_names :: "string list" where
  "Object_prototype_names =
     [''constructor'', ''__defineGetter__'', ''__defineSetter__'', ''hasOwnProperty'',
      ''__lookupGetter__'', ''__lookupSetter__'', ''isPrototypeOf'', ''propertyIsEnumerable'',
      ''toString'', ''valueOf'', ''__proto__'', ''toLocaleString'']"

definition BUILTIN_SCALARS :: "string \<Rightarrow> js_value option" where
  "BUILTIN_SCALARS key =
     (case map_of BUILTIN_SCALARS_own key of
        Some v \<Rightarrow> Some (JSString v)
      | None \<Rightarrow> if key \<in> set Object_prototype_names then Some (JSInherited key) else None)"

fun truthy :: "js_value option \<Rightarrow> bool" where
  "truthy None = False"
| "truthy (Some (JSString v)) = (v \<noteq> [])"
| "truthy (Some (JSInherited k)) = True"

fun to_text :: "(string \<Rightarrow> string) \<Rightarrow> js_value option \<Rightarrow> string" where
  \<comment> \<open>the string a value becomes under \<^verbatim>\<open>+\<close>; the text of a built-in function or object is
      the engine's, given by \<open>inheritedText\<close>\<close>
  "to_text inheritedText None = ''undefined''"
| "to_text inheritedText (Some (JSString v)) = v"
| "to_text inheritedText (Some (JSInherited k)) = inheritedText k"

definition node_inheritedText :: "string \<Rightarrow> string" where
  \<comment> \<open>the texts of the inherited values as Node's engine prints them; one instance of the
      parameter \<open>inheritedText\<close>\<close>
  "node_inheritedText k =
     (if k = ''__proto__'' then ''[object Object]''
      else if k = ''constructor'' then ''function Object() { [native code] }''
      else ''function '' @ k @ ''() { [native code] }'')"

datatype error = TypeError

record hover =
  contents_kind :: string
  contents_value :: string

function expand_braces :: "string list \<Rightarrow> nat \<Rightarrow> int \<Rightarrow> string \<Rightarrow> string" where
  \<comment> \<open>\<^verbatim>\<open>while (endLine < lines.length && braceCount > 0) { ... }\<close>, returning \<open>fullDef\<close>\<close>
  "expand_braces lines endLine braceCount fullDef =
     (if endLine < length lines \<and> braceCount > 0
      then (let l = lines ! endLine
            in expand_braces lines (Suc endLine)
                 (braceCount + (count_char (CHR ''{'') l - count_char (CHR ''}'') l))
                 (fullDef @ [newline] @ l))
      else fullDef)"
  by pat_completeness auto
termination
  by (relation "measure (\<lambda>(lines, endLine, braceCount, fullDef). length lines - endLine)") auto

declare expand_braces.simps [simp del]

function expand_union :: "string list \<Rightarrow> nat \<Rightarrow> string \<Rightarrow> string" where
  \<comment> \<open>\<^verbatim>\<open>while (endLine < lines.length && lines[endLine].trim().startsWith('|')) { ... }\<close>\<close>
  "expand_union lines endLine fullDef =
     (if endLine < length lines \<and> startsWith (trim (lines ! endLine)) ''|''
      then expand_union lines (Suc endLine) (fullDef @ [newline] @ lines ! endLine)
      else fullDef)"
  by pat_completeness auto
termination
  by (relation "measure (\<lambda>(lines, endLine, fullDef). length lines - endLine)") auto

declare expand_union.simps [simp del]

definition full_definition :: "string list \<Rightarrow> definition_entry \<Rightarrow> error + string" where
  \<comment> \<open>lines 181 to 204 of the handler. \<^verbatim>\<open>lines[def.line]\<close> out of range is \<^verbatim>\<open>undefined\<close>:
      \<^verbatim>\<open>fullDef.match\<close> then throws, and without that call the value is later
      concatenated as the text \<^verbatim>\<open>undefined\<close>.\<close>
  "full_definition lines d =
     (if def_kind d \<in> set [''type'', ''interface'', ''input'', ''enum'']
      then (if def_line d < length lines
            then (let fullDef = lines ! def_line d
                  in Inr (expand_braces lines (def_line d + 1)
                            (count_char (CHR ''{'') fullDef - count_char (CHR ''}'') fullDef)
                            fullDef))
            else Inl TypeError)
      else if def_kind d = ''union''
      then (if def_line d < length lines
            then Inr (expand_union lines (def_line d + 1) (lines ! def_line d))
            else Inr ''undefined'')
      else (if def_line d < length lines then Inr (lines ! def_line d) else Inr ''undefined''))"

definition hover_definition :: "string \<Rightarrow> string \<Rightarrow> error + hover option" where
  \<comment> \<open>lines 174 to 221: the path through the scanner\<close>
  "hover_definition text word =
     (case find (\<lambda>d. def_name d = word) (parseGraphQLDefinitions text) of
        None \<Rightarrow> Inr None
      | Some d \<Rightarrow>
          (case full_definition (split_newline text) d of
             Inl e \<Rightarrow> Inl e
           | Inr fullDef \<Rightarrow>
               (let hoverContent = ''```graphql'' @ [newline];
                    hoverContent' =
                      (case def_documentation d of
                         None \<Rightarrow> hoverContent
                       | Some doc \<Rightarrow>
                           if doc = [] then hoverContent
                           else hoverContent @ doc @ [newline])
                in Inr (Some \<lparr>contents_kind = ''markdown'',
                              contents_value = hoverContent' @ fullDef @ [newline] @ ''```''\<rparr>))))"

definition onHover ::
  "(string \<Rightarrow> string) \<Rightarrow> (string \<Rightarrow> position \<Rightarrow> nat) \<Rightarrow> (string \<rightharpoonup> string) \<Rightarrow> string \<Rightarrow> position
     \<Rightarrow> error + hover option"
where
  "onHover inheritedText offsetAt documents uri pos =
     (case documents uri of
        None \<Rightarrow> Inr None
      | Some text \<Rightarrow>
          (case word_at_cursor text (offsetAt text pos) of
             None \<Rightarrow> Inr None
           | Some word \<Rightarrow>
               if word = [] then Inr None
               else if truthy (BUILTIN_SCALARS word)
               then Inr (Some \<lparr>contents_kind = ''markdown'',
                               contents_value =
                                 ''```graphql'' @ [newline] @ ''scalar '' @ word @ [newline] @
                                 ''```'' @ [newline, newline] @
                                 to_text inheritedText (BUILTIN_SCALARS word)\<rparr>)
               else hover_definition text word))"

section \<open>Document symbols\<close>

datatype SymbolKind =
  SymbolKind_Class | SymbolKind_Enum | SymbolKind_Interface | SymbolKind_Constant
| SymbolKind_Struct

record document_symbol =
  sym_name :: string
  sym_kind :: SymbolKind
  sym_range :: range
  sym_selectionRange :: range

definition symbolKindMap :: "(string \<times> SymbolKind) list" where
  "symbolKindMap =
     [(''type'', SymbolKind_Class), (''enum'', SymbolKind_Enum),
      (''union'', SymbolKind_Interface), (''interface'', SymbolKind_Interface),
      (''scalar'', SymbolKind_Constant), (''input'', SymbolKind_Struct)]"

definition onDocumentSymbol :: "(string \<rightharpoonup> string) \<Rightarrow> string \<Rightarrow> document_symbol list" where
  \<comment> \<open>\<^verbatim>\<open>symbolKindMap[def.kind] || SymbolKind.Class\<close>: a scanned kind is one of the six keys\<close>
  "onDocumentSymbol documents uri =
     (case documents uri of
        None \<Rightarrow> []
      | Some text \<Rightarrow>
          map (\<lambda>d. \<lparr>sym_name = def_name d,
                     sym_kind = (case map_of symbolKindMap (def_kind d) of
                                   Some k \<Rightarrow> k
                                 | None \<Rightarrow> SymbolKind_Class),
                     sym_range = definition_range d,
                     sym_selectionRange = definition_range d\<rparr>)
              (parseGraphQLDefinitions text))"

section \<open>Notions of the specification\<close>

subsection \<open>Runs of word characters\<close>

text \<open>
  A maximal run of identifier characters of a text: a non-empty stretch of word characters
  starting at \<open>start\<close> that cannot be extended to the left or to the right. Its span contains
  an offset when the offset lies between its start and its end, both included.
\<close>

definition maximal_run :: "string \<Rightarrow> nat \<Rightarrow> string \<Rightarrow> bool" where
  "maximal_run text start w \<longleftrightarrow>
     w \<noteq> [] \<and> (\<forall>c \<in> set w. is_word_char c) \<and>
     start + length w \<le> length text \<and> take (length w) (drop start text) = w \<and>
     (start = 0 \<or> \<not> is_word_char (text ! (start - 1))) \<and>
     (start + length w = length text \<or> \<not> is_word_char (text ! (start + length w)))"

definition contains_offset :: "nat \<Rightarrow> string \<Rightarrow> nat \<Rightarrow> bool" where
  "contains_offset start w offset \<longleftrightarrow> start \<le> offset \<and> offset \<le> start + length w"

text \<open>
  The positions at which the search loop resumes: no run of word characters has position \<open>i\<close>
  in its interior.
\<close>

definition no_run_across :: "string \<Rightarrow> nat \<Rightarrow> bool" where
  "no_run_across t i \<longleftrightarrow>
     i = 0 \<or> \<not> is_word_char (t ! (i - 1)) \<or> length t \<le> i \<or> \<not> is_word_char (t ! i)"

subsection \<open>The declaration grammar\<close>

text \<open>
  The grammar of a declaration line, as a relation between a line and its two captures:
  \<^verbatim>\<open>^(type|enum|union|interface|scalar|input)\s+([A-Za-z0-9_]+)(?=[^A-Za-z0-9_]|$)\<close>. The line
  is a keyword, then at least one white-space character, then the name, a non-empty run of
  identifier characters, and what follows the name is the end of the line or starts with a
  character that is not an identifier character.
\<close>

definition grammar_match :: "string \<Rightarrow> string \<Rightarrow> string \<Rightarrow> bool" where
  "grammar_match l k n \<longleftrightarrow>
     k \<in> set kind_keywords \<and>
     (\<exists>ws rest. l = k @ ws @ n @ rest \<and>
        ws \<noteq> [] \<and> (\<forall>c \<in> set ws. is_white_space c) \<and>
        n \<noteq> [] \<and> (\<forall>c \<in> set n. is_word_char c) \<and>
        (rest = [] \<or> \<not> is_word_char (hd rest)))"

text \<open>
  The invariant of the scanner's output while it has read the lines before \<open>bound\<close>.
\<close>

definition defs_wf :: "string list \<Rightarrow> nat \<Rightarrow> definition_entry list \<Rightarrow> bool" where
  "defs_wf ls bound ds \<longleftrightarrow>
     sorted_wrt (<) (map def_line ds) \<and>
     (\<forall>d \<in> set ds. def_line d < bound \<and>
        definitionPattern (ls ! def_line d) = Some (def_kind d, def_name d) \<and>
        def_text d = trim (ls ! def_line d))"

subsection \<open>The description of a built-in scalar\<close>

text \<open>
  The fixed two-part markdown: a fenced code block \<^verbatim>\<open>scalar <name>\<close>, an empty line, and the
  description.
\<close>

definition builtin_markdown :: "string \<Rightarrow> string \<Rightarrow> hover" where
  "builtin_markdown name description =
     \<lparr>contents_kind = ''markdown'',
      contents_value = ''```graphql'' @ [newline] @ ''scalar '' @ name @ [newline] @ ''```'' @
        [newline, newline] @ description\<rparr>"

text \<open>
  The description of a declaration: a fenced code block holding the documentation, when there
  is one, and the span \<open>fullDef\<close> of the declaration.
\<close>

definition hover_markdown :: "definition_entry \<Rightarrow> string \<Rightarrow> hover" where
  "hover_markdown d fullDef =
     \<lparr>contents_kind = ''markdown'',
      contents_value = ''```graphql'' @ [newline] @
        (case def_documentation d of
           None \<Rightarrow> []
         | Some doc \<Rightarrow> if doc = [] then [] else doc @ [newline]) @
        fullDef @ [newline] @ ''```''\<rparr>"

subsection \<open>Spans\<close>

text \<open>
  The brace balance of a sequence of lines: the number of opening braces minus the number of
  closing braces on them. A line continues a union when its trimmed text begins with the
  continuation marker.
\<close>

definition brace_balance :: "string list \<Rightarrow> int" where
  "brace_balance ls = (\<Sum>l\<leftarrow>ls. count_char (CHR ''{'') l - count_char (CHR ''}'') l)"

definition continues_union :: "string \<Rightarrow> bool" where
  "continues_union l = startsWith (trim l) ''|''"

subsection \<open>Comment lines and the run before a declaration\<close>

text \<open>
  A line toggles the block-comment state when its trimmed text begins with the triple-quote
  delimiter and does not hold the delimiter exactly twice.
\<close>

definition toggles :: "string \<Rightarrow> bool" where
  "toggles l \<longleftrightarrow> startsWith (trim l) triple_quote \<and> count_triple_quotes (trim l) \<noteq> 2"

text \<open>
  The four kinds of line of the scanner's rules, for a line read while the block-comment flag
  is \<open>inside\<close>: a comment line (it begins with the triple-quote delimiter, or lies inside a
  block comment, or begins with \<^verbatim>\<open>#\<close>), a declaration line, a blank line, and any other line.
\<close>

datatype line_class = Comment | Declaration | Blank | Stray

definition classify :: "bool \<Rightarrow> string \<Rightarrow> line_class" where
  "classify inside l =
     (if startsWith (trim l) triple_quote \<or> inside \<or> startsWith (trim l) ''#'' then Comment
      else if definitionPattern l \<noteq> None then Declaration
      else if trim l = [] then Blank
      else Stray)"

fun classify_lines :: "bool \<Rightarrow> string list \<Rightarrow> line_class list" where
  "classify_lines inside [] = []"
| "classify_lines inside (l # ls) =
     classify inside l # classify_lines (inside \<noteq> toggles l) ls"

text \<open>
  The comment lines before line \<open>i\<close> since the last declaration or other non-empty line that
  is not a comment: going back from line \<open>i\<close> through the comment lines and the blank lines,
  up to the first declaration or other line or to the start of the document, the comment lines
  among them, in document order. The blank lines are skipped, so groups of comment lines that
  only blank lines separate belong to it together.
\<close>

definition pending_comments :: "(string \<times> line_class) list \<Rightarrow> string list" where
  "pending_comments xs =
     rev (map fst (filter (\<lambda>(l, c). c = Comment)
       (takeWhile (\<lambda>(l, c). c = Comment \<or> c = Blank) (rev xs))))"

definition comments_since_reset :: "string list \<Rightarrow> nat \<Rightarrow> string list" where
  "comments_since_reset ls i = pending_comments (zip (take i ls) (classify_lines False (take i ls)))"

text \<open>
  The contiguous run of comment lines immediately before line \<open>i\<close>: going back from line
  \<open>i\<close>, past the blank lines between the run and line \<open>i\<close>, the comment lines that follow one
  another without a gap. The run starts after content when the line before it, if there is
  one, is not blank.
\<close>

definition contiguous_run :: "string list \<Rightarrow> nat \<Rightarrow> string list" where
  "contiguous_run ls i =
     rev (map fst
       (takeWhile (\<lambda>(l, c). c = Comment)
         (dropWhile (\<lambda>(l, c). c = Blank)
           (rev (zip (take i ls) (classify_lines False (take i ls)))))))"

definition run_starts_after_content :: "string list \<Rightarrow> nat \<Rightarrow> bool" where
  "run_starts_after_content ls i =
     (case dropWhile (\<lambda>(l, c). c = Comment)
             (dropWhile (\<lambda>(l, c). c = Blank)
               (rev (zip (take i ls) (classify_lines False (take i ls))))) of
        [] \<Rightarrow> True
      | (l, c) # before \<Rightarrow> c \<noteq> Blank)"

definition documentation_of :: "string list \<Rightarrow> string option" where
  "documentation_of run = (if run = [] then None else Some (join_newline run))"

text \<open>
  The invariant of the scanner's state after the lines \<open>pre\<close>.
\<close>

definition doc_inv :: "string list \<Rightarrow> scan_state \<Rightarrow> bool" where
  "doc_inv pre s \<longleftrightarrow>
     currentDoc s = comments_since_reset pre (length pre) \<and>
     inMultiLineComment s = foldl (\<lambda>b l. b \<noteq> toggles l) False pre \<and>
     (\<forall>d \<in> set (definitions s).
        def_line d < length pre \<and>
        classify_lines False pre ! def_line d = Declaration \<and>
        def_documentation d = documentation_of (comments_since_reset pre (def_line d)))"

section \<open>Properties of the word locator\<close>

lemma maximal_run_bounds:
  assumes "maximal_run t j w"
  shows "0 < length w" and "j < length t" and "j + length w \<le> length t"
proof -
  from assms show *: "0 < length w" by (simp add: maximal_run_def)
  from assms show **: "j + length w \<le> length t" by (simp add: maximal_run_def)
  from * ** show "j < length t" by arith
qed

lemma maximal_run_nth:
  assumes "maximal_run t j w" "k < length w"
  shows "is_word_char (t ! (j + k))"
proof -
  from assms have "take (length w) (drop j t) = w" and le: "j + length w \<le> length t"
    and all: "\<forall>c \<in> set w. is_word_char c"
    by (auto simp: maximal_run_def)
  then have "w ! k = t ! (j + k)"
    using assms(2) by (metis nth_take nth_drop le_add1 le_trans)
  moreover have "is_word_char (w ! k)"
    using all assms(2) by simp
  ultimately show ?thesis by simp
qed

lemma maximal_run_separated:
  assumes r1: "maximal_run t j w" and r2: "maximal_run t j' w'" and lt: "j < j'"
  shows "j + length w < j'"
proof (rule ccontr)
  assume "\<not> j + length w < j'"
  then have le: "j' \<le> j + length w" by simp
  from r2 have nb: "\<not> is_word_char (t ! (j' - 1))"
    using lt by (auto simp: maximal_run_def)
  have "j' - 1 - j < length w" using lt le by arith
  from maximal_run_nth [OF r1 this] have "is_word_char (t ! (j' - 1))"
    using lt by simp
  with nb show False by simp
qed

lemma maximal_run_same_start:
  assumes r1: "maximal_run t j w" and r2: "maximal_run t j w'"
  shows "w = w'"
proof -
  have aux: "length a \<le> length b" if a: "maximal_run t j a" and b: "maximal_run t j b" for a b
  proof (rule ccontr)
    assume "\<not> length a \<le> length b"
    then have lt: "length b < length a" by simp
    from maximal_run_nth [OF a lt] have "is_word_char (t ! (j + length b))" .
    moreover from a lt have "j + length b < length t" by (auto simp: maximal_run_def)
    ultimately show False using b by (auto simp: maximal_run_def)
  qed
  have "length w = length w'"
    using aux [OF r1 r2] aux [OF r2 r1] by simp
  then show ?thesis
    using r1 r2 by (auto simp: maximal_run_def)
qed

lemma maximal_run_unique:
  assumes r1: "maximal_run t j w" and r2: "maximal_run t j' w'"
    and c1: "contains_offset j w offset" and c2: "contains_offset j' w' offset"
  shows "j = j' \<and> w = w'"
proof -
  have "j = j'"
  proof (rule ccontr)
    assume "j \<noteq> j'"
    then consider "j < j'" | "j' < j" by arith
    then show False
    proof cases
      case 1
      from maximal_run_separated [OF r1 r2 1] c1 c2 show False
        by (simp add: contains_offset_def)
    next
      case 2
      from maximal_run_separated [OF r2 r1 2] c1 c2 show False
        by (simp add: contains_offset_def)
    qed
  qed
  with maximal_run_same_start r1 r2 show ?thesis by blast
qed

lemma exec_None:
  assumes "wordPattern_exec t L = None" and "maximal_run t j w" and "L \<le> j"
  shows False
proof -
  from assms(1) have "dropWhile (\<lambda>c. \<not> is_word_char c) (drop L t) = []"
    by (auto simp: wordPattern_exec_def Let_def split: if_splits)
  then have all: "\<forall>c \<in> set (drop L t). \<not> is_word_char c"
    by (simp add: dropWhile_eq_Nil_conv)
  note b = maximal_run_bounds [OF assms(2)]
  have "j - L < length (drop L t)"
    using b(2) assms(3) by simp
  then have "drop L t ! (j - L) \<in> set (drop L t)"
    by (rule nth_mem)
  moreover have "drop L t ! (j - L) = t ! j"
    using b(2) assms(3) by simp
  ultimately have "t ! j \<in> set (drop L t)"
    by simp
  moreover have "is_word_char (t ! j)"
    using maximal_run_nth [OF assms(2) b(1)] by simp
  ultimately show False using all by blast
qed

lemma exec_Some:
  assumes ex: "wordPattern_exec t L = Some (i, m)" and nra: "no_run_across t L"
  shows "maximal_run t i m" and "L \<le> i"
    and "\<And>j w. maximal_run t j w \<Longrightarrow> L \<le> j \<Longrightarrow> i \<le> j"
    and "no_run_across t (i + length m)"
proof -
  let ?rest = "drop L t"
  let ?skipped = "takeWhile (\<lambda>c. \<not> is_word_char c) ?rest"
  let ?found = "dropWhile (\<lambda>c. \<not> is_word_char c) ?rest"
  from ex have ne: "?found \<noteq> []" and idx: "i = L + length ?skipped"
    and m: "m = takeWhile is_word_char ?found"
    by (auto simp: wordPattern_exec_def Let_def split: if_splits)
  show "L \<le> i" using idx by simp
  have found: "?found = drop i t"
    unfolding idx by (simp add: dropWhile_eq_drop add.commute)
  have skipped: "\<not> is_word_char (t ! (L + k))" if "k < length ?skipped" for k
  proof -
    from that have "?skipped ! k = ?rest ! k" by (rule takeWhile_nth)
    moreover have "?skipped ! k \<in> set ?skipped" using that by simp
    then have "\<not> is_word_char (?skipped ! k)" by (metis (mono_tags, lifting) set_takeWhileD)
    moreover have "L + k \<le> length t"
      using that length_takeWhile_le [of "\<lambda>c. \<not> is_word_char c" ?rest] by simp
    ultimately show ?thesis by simp
  qed
  from ne have ilt: "i < length t" unfolding found by simp
  from ne have hdw: "is_word_char (t ! i)"
    using hd_dropWhile [of "\<lambda>c. \<not> is_word_char c" ?rest] unfolding found
    by (simp add: hd_drop_conv_nth ilt)
  have "drop i t = t ! i # drop (Suc i) t"
    using ilt by (simp add: Cons_nth_drop_Suc)
  then have mne: "m \<noteq> []"
    unfolding m found using hdw by simp
  have mall: "\<forall>c \<in> set m. is_word_char c"
    unfolding m by (auto dest: set_takeWhileD)
  have mlen: "i + length m \<le> length t"
    unfolding m found using length_takeWhile_le [of is_word_char "drop i t"] ilt by simp
  have mtake: "take (length m) (drop i t) = m"
    unfolding m found by (rule takeWhile_eq_take [symmetric])
  have mend: "i + length m = length t \<or> \<not> is_word_char (t ! (i + length m))"
  proof (cases "i + length m = length t")
    case False
    with mlen have "length (takeWhile is_word_char (drop i t)) < length (drop i t)"
      unfolding m found by simp
    from nth_length_takeWhile [OF this] show ?thesis
      using mlen unfolding m found by simp
  qed simp
  have mstart: "i = 0 \<or> \<not> is_word_char (t ! (i - 1))"
  proof (cases "length ?skipped")
    case 0
    then have "i = L" using idx by simp
    with nra hdw ilt show ?thesis by (auto simp: no_run_across_def)
  next
    case (Suc n)
    then have "n < length ?skipped" by simp
    from skipped [OF this] show ?thesis using idx Suc by simp
  qed
  show "maximal_run t i m"
    using mne mall mlen mtake mstart mend by (simp add: maximal_run_def)
  show "no_run_across t (i + length m)"
    using mend by (auto simp: no_run_across_def)
  show "i \<le> j" if r: "maximal_run t j w" and "L \<le> j" for j w
  proof (rule ccontr)
    assume "\<not> i \<le> j"
    then have "j - L < length ?skipped" using idx \<open>L \<le> j\<close> by arith
    from skipped [OF this] have "\<not> is_word_char (t ! j)" using \<open>L \<le> j\<close> by simp
    moreover from maximal_run_nth [OF r maximal_run_bounds(1) [OF r]] have "is_word_char (t ! j)" by simp
    ultimately show False by simp
  qed
qed

lemma word_at_loop_Some_iff:
  "no_run_across t L \<Longrightarrow>
   (\<And>j w. maximal_run t j w \<Longrightarrow> j < L \<Longrightarrow> \<not> contains_offset j w offset) \<Longrightarrow>
   word_at_loop t L offset = Some w \<longleftrightarrow> (\<exists>j. maximal_run t j w \<and> contains_offset j w offset)"
proof (induction t L offset rule: word_at_loop.induct)
  case (1 t L offset)
  show ?case
  proof (cases "wordPattern_exec t L")
    case None
    then have "word_at_loop t L offset = None"
      using word_at_loop.simps [of t L offset] by simp
    moreover have "\<not> contains_offset j w offset" if r: "maximal_run t j w" for j
    proof (cases "j < L")
      case True
      with "1.prems"(2) r show ?thesis by blast
    next
      case False
      with exec_None [OF None r] show ?thesis by simp
    qed
    ultimately show ?thesis by auto
  next
    case (Some p)
    obtain i m where p: "p = (i, m)" by (cases p)
    with Some have ex: "wordPattern_exec t L = Some (i, m)" by simp
    note es = exec_Some [OF ex "1.prems"(1)]
    show ?thesis
    proof (cases "i \<le> offset \<and> offset \<le> i + length m")
      case True
      then have res: "word_at_loop t L offset = Some m"
        using ex word_at_loop.simps [of t L offset] by simp
      from True have c: "contains_offset i m offset"
        by (simp add: contains_offset_def)
      show ?thesis
      proof
        assume "word_at_loop t L offset = Some w"
        with res have "w = m" by simp
        with es(1) c show "\<exists>j. maximal_run t j w \<and> contains_offset j w offset" by blast
      next
        assume "\<exists>j. maximal_run t j w \<and> contains_offset j w offset"
        then obtain j where "maximal_run t j w" "contains_offset j w offset" by blast
        from maximal_run_unique [OF this(1) es(1) this(2) c] have "w = m" by simp
        with res show "word_at_loop t L offset = Some w" by simp
      qed
    next
      case False
      then have res: "word_at_loop t L offset = word_at_loop t (i + length m) offset"
        using ex word_at_loop.simps [of t L offset] by auto
      have before: "\<not> contains_offset j w' offset"
        if r: "maximal_run t j w'" and lt: "j < i + length m" for j w'
      proof (cases "j < L")
        case True
        with "1.prems"(2) r show ?thesis by blast
      next
        case nlt: False
        then have "i \<le> j" using es(3) [OF r] by simp
        moreover have "\<not> i < j"
          using maximal_run_separated [OF es(1) r] lt by auto
        ultimately have "j = i" by simp
        with maximal_run_same_start [OF es(1)] r have "w' = m" by simp
        with False \<open>j = i\<close> show ?thesis by (simp add: contains_offset_def)
      qed
      have "word_at_loop t (i + length m) offset = Some w \<longleftrightarrow>
              (\<exists>j. maximal_run t j w \<and> contains_offset j w offset)"
        using "1.IH" [OF Some p [symmetric] False es(4)] before by blast
      with res show ?thesis by simp
    qed
  qed
qed

lemma word_at_cursor_Some_iff:
  "word_at_cursor t offset = Some w \<longleftrightarrow> (\<exists>j. maximal_run t j w \<and> contains_offset j w offset)"
  unfolding word_at_cursor_def
  by (rule word_at_loop_Some_iff) (simp_all add: no_run_across_def)

text \<open>
  C6. The word locator returns the first maximal run of identifier characters whose span
  \<open>[start, start + length]\<close> contains the offset, both ends included, and nothing when no
  run contains the offset. For the text \<^verbatim>\<open>User\<close> the offsets 0 to 4 all give \<^verbatim>\<open>User\<close>; for
  \<^verbatim>\<open>User\<close> followed by a space, offset 5 gives nothing.
\<close>

theorem word_at_cursor_first_containing_run:
  "(word_at_cursor text offset = Some w \<longleftrightarrow>
      (\<exists>start. maximal_run text start w \<and> contains_offset start w offset \<and>
         (\<forall>start' w'. maximal_run text start' w' \<and> contains_offset start' w' offset
            \<longrightarrow> start \<le> start'))) \<and>
   (word_at_cursor text offset = None \<longleftrightarrow>
      (\<forall>start w. maximal_run text start w \<longrightarrow> \<not> contains_offset start w offset)) \<and>
   (\<forall>k \<in> {0, 1, 2, 3, 4}. word_at_cursor ''User'' k = Some ''User'') \<and>
   word_at_cursor ''User '' 5 = None"
proof (intro conjI)
  show "word_at_cursor text offset = Some w \<longleftrightarrow>
      (\<exists>start. maximal_run text start w \<and> contains_offset start w offset \<and>
         (\<forall>start' w'. maximal_run text start' w' \<and> contains_offset start' w' offset
            \<longrightarrow> start \<le> start'))"
  proof
    assume "word_at_cursor text offset = Some w"
    then obtain start where r: "maximal_run text start w" "contains_offset start w offset"
      unfolding word_at_cursor_Some_iff by blast
    have "start \<le> start'"
      if "maximal_run text start' w' \<and> contains_offset start' w' offset" for start' w'
      using maximal_run_unique [OF r(1) _ r(2)] that by auto
    with r show "\<exists>start. maximal_run text start w \<and> contains_offset start w offset \<and>
         (\<forall>start' w'. maximal_run text start' w' \<and> contains_offset start' w' offset
            \<longrightarrow> start \<le> start')"
      by blast
  next
    assume "\<exists>start. maximal_run text start w \<and> contains_offset start w offset \<and>
         (\<forall>start' w'. maximal_run text start' w' \<and> contains_offset start' w' offset
            \<longrightarrow> start \<le> start')"
    then show "word_at_cursor text offset = Some w"
      unfolding word_at_cursor_Some_iff by blast
  qed
  show "word_at_cursor text offset = None \<longleftrightarrow>
      (\<forall>start w. maximal_run text start w \<longrightarrow> \<not> contains_offset start w offset)"
    using word_at_cursor_Some_iff [of "text" offset] by (metis not_Some_eq)
  show "\<forall>k \<in> {0, 1, 2, 3, 4}. word_at_cursor ''User'' k = Some ''User''"
    by code_simp
  show "word_at_cursor ''User '' 5 = None"
    by code_simp
qed

theorem word_at_cursor_first_containing_run_witness:
  "word_at_cursor ''a User'' 6 = Some ''User'' \<and>
   (\<exists>start. maximal_run ''a User'' start ''User'' \<and> contains_offset start ''User'' 6)"
proof -
  have h: "word_at_cursor ''a User'' 6 = Some ''User''"
    by code_simp
  with word_at_cursor_first_containing_run [of "''a User''" 6 "''User''"]
  show ?thesis by blast
qed

section \<open>Properties of the declaration pattern\<close>

lemma word_char_not_white_space: "is_word_char c \<Longrightarrow> \<not> is_white_space c"
  by (auto simp: is_word_char_def is_white_space_def Let_def)

lemma keyword_chars: "k \<in> set kind_keywords \<Longrightarrow> c \<in> set k \<Longrightarrow> \<not> is_white_space c"
  by (auto simp: kind_keywords_def is_white_space_def)

lemma takeWhile_hd_stop: "xs \<noteq> [] \<Longrightarrow> \<not> P (hd xs) \<Longrightarrow> takeWhile P (xs @ ys) = []"
  by (cases xs) auto

lemma dropWhile_hd_stop: "xs \<noteq> [] \<Longrightarrow> \<not> P (hd xs) \<Longrightarrow> dropWhile P (xs @ ys) = xs @ ys"
  by (cases xs) auto

lemma match_after_keyword_iff:
  "match_after_keyword r = Some n \<longleftrightarrow>
     (\<exists>ws rest. r = ws @ n @ rest \<and>
        ws \<noteq> [] \<and> (\<forall>c \<in> set ws. is_white_space c) \<and>
        n \<noteq> [] \<and> (\<forall>c \<in> set n. is_word_char c) \<and>
        (rest = [] \<or> \<not> is_word_char (hd rest)))"
proof
  assume a: "match_after_keyword r = Some n"
  let ?ws = "takeWhile is_white_space r"
  let ?r1 = "dropWhile is_white_space r"
  let ?r2 = "dropWhile is_word_char ?r1"
  from a have ws: "?ws \<noteq> []" and n: "n = takeWhile is_word_char ?r1" and nne: "n \<noteq> []"
    and r2: "?r2 = [] \<or> \<not> is_word_char (hd ?r2)"
    by (auto simp: match_after_keyword_def Let_def split: if_splits)
  have "r = ?ws @ n @ ?r2"
    unfolding n by simp
  moreover have "\<forall>c \<in> set ?ws. is_white_space c"
    by (auto dest: set_takeWhileD)
  moreover have "\<forall>c \<in> set n. is_word_char c"
    unfolding n by (auto dest: set_takeWhileD)
  ultimately show "\<exists>ws rest. r = ws @ n @ rest \<and>
        ws \<noteq> [] \<and> (\<forall>c \<in> set ws. is_white_space c) \<and>
        n \<noteq> [] \<and> (\<forall>c \<in> set n. is_word_char c) \<and>
        (rest = [] \<or> \<not> is_word_char (hd rest))"
    using ws nne r2 by blast
next
  assume "\<exists>ws rest. r = ws @ n @ rest \<and>
        ws \<noteq> [] \<and> (\<forall>c \<in> set ws. is_white_space c) \<and>
        n \<noteq> [] \<and> (\<forall>c \<in> set n. is_word_char c) \<and>
        (rest = [] \<or> \<not> is_word_char (hd rest))"
  then obtain ws rest where r: "r = ws @ n @ rest" and ws: "ws \<noteq> []" "\<forall>c \<in> set ws. is_white_space c"
    and n: "n \<noteq> []" "\<forall>c \<in> set n. is_word_char c" and rest: "rest = [] \<or> \<not> is_word_char (hd rest)"
    by blast
  from n have hdn: "\<not> is_white_space (hd n)"
    by (simp add: word_char_not_white_space)
  have tw: "takeWhile is_white_space r = ws"
    unfolding r using ws(2) n(1) hdn by (simp add: takeWhile_hd_stop)
  have dw: "dropWhile is_white_space r = n @ rest"
    unfolding r using ws(2) n(1) hdn by (simp add: dropWhile_hd_stop)
  have tn: "takeWhile is_word_char (n @ rest) = n"
    using n(2) rest by (cases rest) auto
  have dn: "dropWhile is_word_char (n @ rest) = rest"
    using n(2) rest by (cases rest) auto
  show "match_after_keyword r = Some n"
    unfolding match_after_keyword_def Let_def tw dw tn dn using ws(1) n(1) rest by simp
qed

lemma match_alternatives_Some:
  "match_alternatives ks l = Some (k, n) \<Longrightarrow>
     k \<in> set ks \<and> startsWith l k \<and> match_after_keyword (drop (length k) l) = Some n"
  by (induction ks) (auto split: if_splits option.splits)

lemma match_alternatives_unique:
  assumes "k \<in> set ks" and "startsWith l k"
    and "match_after_keyword (drop (length k) l) = Some n"
    and "\<forall>k' \<in> set ks. startsWith l k' \<and> match_after_keyword (drop (length k') l) \<noteq> None
            \<longrightarrow> k' = k"
  shows "match_alternatives ks l = Some (k, n)"
  using assms(1,4)
proof (induction ks)
  case Nil
  then show ?case by simp
next
  case (Cons a ks)
  show ?case
  proof (cases "startsWith l a \<and> match_after_keyword (drop (length a) l) \<noteq> None")
    case True
    with Cons.prems(2) have "a = k" by simp
    with assms(2,3) show ?thesis by simp
  next
    case False
    then have eq: "match_alternatives (a # ks) l = match_alternatives ks l"
      by (auto split: option.splits)
    from False assms(2,3) have "a \<noteq> k" by auto
    with Cons.prems(1) have "k \<in> set ks" by simp
    moreover from Cons.prems(2) have "\<forall>k' \<in> set ks. startsWith l k' \<and>
        match_after_keyword (drop (length k') l) \<noteq> None \<longrightarrow> k' = k"
      by simp
    ultimately have "match_alternatives ks l = Some (k, n)"
      by (rule Cons.IH)
    with eq show ?thesis by simp
  qed
qed

lemma keyword_then_space:
  assumes k: "k \<in> set kind_keywords" and sw: "startsWith l k"
    and m: "match_after_keyword (drop (length k) l) \<noteq> None"
  shows "length k < length l" and "is_white_space (l ! length k)"
    and "\<And>i. i < length k \<Longrightarrow> \<not> is_white_space (l ! i)"
proof -
  let ?r = "drop (length k) l"
  from m have "takeWhile is_white_space ?r \<noteq> []"
    by (auto simp: match_after_keyword_def Let_def split: if_splits)
  then have ne: "?r \<noteq> []" and hd: "is_white_space (hd ?r)"
    by (auto simp: takeWhile_eq_Nil_iff)
  from ne show lt: "length k < length l" by simp
  from hd lt show "is_white_space (l ! length k)"
    by (simp add: hd_drop_conv_nth)
  show "\<not> is_white_space (l ! i)" if "i < length k" for i
  proof -
    from sw have "take (length k) l = k" by (simp add: startsWith_def)
    then have "l ! i = k ! i" using that by (metis nth_take)
    moreover have "k ! i \<in> set k" using that by simp
    ultimately show ?thesis using keyword_chars [OF k] by simp
  qed
qed

lemma keyword_unique:
  assumes "k \<in> set kind_keywords" "startsWith l k" "match_after_keyword (drop (length k) l) \<noteq> None"
    and "k' \<in> set kind_keywords" "startsWith l k'" "match_after_keyword (drop (length k') l) \<noteq> None"
  shows "k' = k"
proof -
  note a = keyword_then_space [OF assms(1-3)]
  note b = keyword_then_space [OF assms(4-6)]
  have "\<not> length k < length k'" using a(2) b(3) by blast
  moreover have "\<not> length k' < length k" using b(2) a(3) by blast
  ultimately have "length k = length k'" by simp
  with assms(2,5) show ?thesis by (simp add: startsWith_def)
qed

lemma definitionPattern_iff:
  "definitionPattern l = Some (k, n) \<longleftrightarrow>
     k \<in> set kind_keywords \<and> startsWith l k \<and> match_after_keyword (drop (length k) l) = Some n"
proof
  assume "definitionPattern l = Some (k, n)"
  then show "k \<in> set kind_keywords \<and> startsWith l k \<and>
      match_after_keyword (drop (length k) l) = Some n"
    unfolding definitionPattern_def by (rule match_alternatives_Some)
next
  assume a: "k \<in> set kind_keywords \<and> startsWith l k \<and>
      match_after_keyword (drop (length k) l) = Some n"
  then have ne: "match_after_keyword (drop (length k) l) \<noteq> None" by simp
  have "k' = k" if "k' \<in> set kind_keywords" "startsWith l k'"
      "match_after_keyword (drop (length k') l) \<noteq> None" for k'
    using keyword_unique [of k l k'] a ne that by simp
  then have "\<forall>k' \<in> set kind_keywords. startsWith l k' \<and>
      match_after_keyword (drop (length k') l) \<noteq> None \<longrightarrow> k' = k"
    by blast
  with a show "definitionPattern l = Some (k, n)"
    unfolding definitionPattern_def by (intro match_alternatives_unique) blast+
qed

lemma definitionPattern_grammar:
  "definitionPattern l = Some (k, n) \<longleftrightarrow> grammar_match l k n"
proof -
  have "startsWith l k \<and> match_after_keyword (drop (length k) l) = Some n \<longleftrightarrow>
        (\<exists>ws rest. l = k @ ws @ n @ rest \<and>
        ws \<noteq> [] \<and> (\<forall>c \<in> set ws. is_white_space c) \<and>
        n \<noteq> [] \<and> (\<forall>c \<in> set n. is_word_char c) \<and>
        (rest = [] \<or> \<not> is_word_char (hd rest)))" (is "?L \<longleftrightarrow> ?R")
  proof
    assume ?L
    then have l: "l = k @ drop (length k) l"
      by (metis append_take_drop_id startsWith_def)
    from \<open>?L\<close> obtain ws rest where "drop (length k) l = ws @ n @ rest" "ws \<noteq> []"
      "\<forall>c \<in> set ws. is_white_space c" "n \<noteq> []" "\<forall>c \<in> set n. is_word_char c"
      "rest = [] \<or> \<not> is_word_char (hd rest)"
      unfolding match_after_keyword_iff by blast
    with l have "l = k @ ws @ n @ rest" by simp
    with \<open>ws \<noteq> []\<close> \<open>\<forall>c \<in> set ws. is_white_space c\<close> \<open>n \<noteq> []\<close>
      \<open>\<forall>c \<in> set n. is_word_char c\<close> \<open>rest = [] \<or> \<not> is_word_char (hd rest)\<close>
    show ?R by blast
  next
    assume ?R
    then obtain ws rest where l: "l = k @ ws @ n @ rest" and r: "ws \<noteq> []"
      "\<forall>c \<in> set ws. is_white_space c" "n \<noteq> []" "\<forall>c \<in> set n. is_word_char c"
      "rest = [] \<or> \<not> is_word_char (hd rest)"
      by blast
    from l have "startsWith l k" and "drop (length k) l = ws @ n @ rest"
      by (simp_all add: startsWith_def)
    with r show ?L unfolding match_after_keyword_iff by blast
  qed
  then show ?thesis
    unfolding definitionPattern_iff grammar_match_def by blast
qed

lemma grammar_match_unique:
  assumes "grammar_match l k n" and "grammar_match l k' n'"
  shows "k' = k \<and> n' = n"
proof -
  from assms(1) have "definitionPattern l = Some (k, n)"
    by (rule definitionPattern_grammar [THEN iffD2])
  moreover from assms(2) have "definitionPattern l = Some (k', n')"
    by (rule definitionPattern_grammar [THEN iffD2])
  ultimately show ?thesis by simp
qed

section \<open>Properties of the scanner\<close>

lemma scan_line_definitions:
  "definitions (scan_line s l i) = definitions s \<or>
   (\<exists>k n. definitionPattern l = Some (k, n) \<and>
      definitions (scan_line s l i) = definitions s @
        [\<lparr>def_kind = k, def_name = n, def_line = i, def_text = trim l,
          def_documentation =
            (if currentDoc s = [] then None else Some (join_newline (currentDoc s)))\<rparr>])"
  by (auto simp: scan_line_def Let_def split: option.splits)

lemma defs_wf_step:
  assumes wf: "defs_wf ls b (definitions s)" and b: "b < length ls"
  shows "defs_wf ls (Suc b) (definitions (scan_line s (ls ! b) b))"
proof -
  from scan_line_definitions [of s "ls ! b" b]
  consider (same) "definitions (scan_line s (ls ! b) b) = definitions s"
    | (new) k n doc where "definitionPattern (ls ! b) = Some (k, n)"
        "definitions (scan_line s (ls ! b) b) = definitions s @
           [\<lparr>def_kind = k, def_name = n, def_line = b, def_text = trim (ls ! b),
             def_documentation = doc\<rparr>]"
    by blast
  then show ?thesis
  proof cases
    case same
    with wf show ?thesis by (auto simp: defs_wf_def less_Suc_eq)
  next
    case new
    with wf show ?thesis
      by (auto simp: defs_wf_def less_Suc_eq sorted_wrt_append)
  qed
qed

lemma scan_lines_wf:
  "defs_wf (pre @ ls) (length pre) (definitions s) \<Longrightarrow>
   defs_wf (pre @ ls) (length pre + length ls) (definitions (scan_lines s (length pre) ls))"
proof (induction ls arbitrary: pre s)
  case Nil
  then show ?case by simp
next
  case (Cons l ls)
  have "defs_wf (pre @ l # ls) (Suc (length pre))
          (definitions (scan_line s ((pre @ l # ls) ! length pre) (length pre)))"
    using Cons.prems by (intro defs_wf_step) simp_all
  then have "defs_wf ((pre @ [l]) @ ls) (length (pre @ [l]))
          (definitions (scan_line s l (length pre)))"
    by simp
  from Cons.IH [OF this] show ?case by simp
qed

lemma parse_wf:
  "defs_wf (split_newline t) (length (split_newline t)) (parseGraphQLDefinitions t)"
  using scan_lines_wf [of "[]" "split_newline t" initial_state]
  by (simp add: parseGraphQLDefinitions_def defs_wf_def initial_state_def)

lemma parse_sorted: "sorted_wrt (<) (map def_line (parseGraphQLDefinitions t))"
  using parse_wf [of t] by (simp add: defs_wf_def)

lemma parse_entry:
  assumes "d \<in> set (parseGraphQLDefinitions t)"
  shows "def_line d < length (split_newline t)"
    and "definitionPattern (split_newline t ! def_line d) = Some (def_kind d, def_name d)"
    and "def_text d = trim (split_newline t ! def_line d)"
  using parse_wf [of t] assms by (auto simp: defs_wf_def)

lemma sorted_lines_nth:
  assumes "sorted_wrt (<) (map def_line ds)" and "i < j" and "j < length ds"
  shows "def_line (ds ! i) < def_line (ds ! j)"
  using sorted_wrt_nth_less [OF assms(1), of i j] assms(2,3) by simp

text \<open>
  C8. For every document text the declarations of the scanner are sorted by line index,
  strictly ascending, so that a line gives at most one declaration; each declaration lies on a
  line of the document, and its kind and name are the captures of the declaration grammar on
  that raw line, which are unique.
\<close>

theorem scanner_sorted_and_matches_grammar:
  "sorted_wrt (<) (map def_line (parseGraphQLDefinitions text)) \<and>
   (\<forall>d \<in> set (parseGraphQLDefinitions text).
      def_line d < length (split_newline text) \<and>
      grammar_match (split_newline text ! def_line d) (def_kind d) (def_name d) \<and>
      (\<forall>k n. grammar_match (split_newline text ! def_line d) k n
         \<longrightarrow> k = def_kind d \<and> n = def_name d))"
proof (intro conjI ballI allI impI)
  show "sorted_wrt (<) (map def_line (parseGraphQLDefinitions text))"
    by (rule parse_sorted)
next
  fix d assume d: "d \<in> set (parseGraphQLDefinitions text)"
  from parse_entry(1) [OF d] show "def_line d < length (split_newline text)" .
  from parse_entry(2) [OF d]
  show g: "grammar_match (split_newline text ! def_line d) (def_kind d) (def_name d)"
    by (simp add: definitionPattern_grammar)
  fix k n assume "grammar_match (split_newline text ! def_line d) k n"
  from grammar_match_unique [OF g this] show "k = def_kind d" and "n = def_name d"
    by simp_all
qed

theorem scanner_sorted_and_matches_grammar_witness:
  "parseGraphQLDefinitions (''type A'' @ [newline] @ ''enum B {'') =
     [\<lparr>def_kind = ''type'', def_name = ''A'', def_line = 0, def_text = ''type A'',
        def_documentation = None\<rparr>,
      \<lparr>def_kind = ''enum'', def_name = ''B'', def_line = 1, def_text = ''enum B {'',
        def_documentation = None\<rparr>] \<and>
   grammar_match ''type A'' ''type'' ''A'' \<and>
   grammar_match ''enum B {'' ''enum'' ''B''"
proof -
  let ?t = "''type A'' @ [newline] @ ''enum B {''"
  have p: "parseGraphQLDefinitions ?t =
     [\<lparr>def_kind = ''type'', def_name = ''A'', def_line = 0, def_text = ''type A'',
        def_documentation = None\<rparr>,
      \<lparr>def_kind = ''enum'', def_name = ''B'', def_line = 1, def_text = ''enum B {'',
        def_documentation = None\<rparr>]"
    by code_simp
  have s: "split_newline ?t = [''type A'', ''enum B {'']"
    by code_simp
  from scanner_sorted_and_matches_grammar [of ?t] show ?thesis
    unfolding p s by simp
qed

section \<open>Properties of the queries\<close>

lemma word_at_cursor_nonempty: "word_at_cursor t offset = Some w \<Longrightarrow> w \<noteq> []"
  unfolding word_at_cursor_Some_iff by (auto simp: maximal_run_def)

lemma full_definition_in_range:
  "def_line d < length ls \<Longrightarrow> \<exists>r. full_definition ls d = Inr r"
  by (simp add: full_definition_def Let_def)

lemma find_first:
  assumes "i < length ds" and "P (ds ! i)" and "\<forall>j < i. \<not> P (ds ! j)"
  shows "find P ds = Some (ds ! i)"
  using assms by (auto simp: find_Some_iff)

lemma onDefinition_first:
  assumes "documents uri = Some t" and "word_at_cursor t (offsetAt t pos) = Some w"
    and "i < length (parseGraphQLDefinitions t)"
    and "def_name (parseGraphQLDefinitions t ! i) = w"
    and "\<forall>j < i. def_name (parseGraphQLDefinitions t ! j) \<noteq> w"
  shows "onDefinition offsetAt documents uri pos =
     Some \<lparr>loc_uri = uri,
            loc_range =
              \<lparr>range_start = \<lparr>pos_line = def_line (parseGraphQLDefinitions t ! i),
                               pos_character = 0\<rparr>,
               range_end = \<lparr>pos_line = def_line (parseGraphQLDefinitions t ! i),
                             pos_character =
                               length (trim (split_newline t !
                                 def_line (parseGraphQLDefinitions t ! i)))\<rparr>\<rparr>\<rparr>"
proof -
  let ?d = "parseGraphQLDefinitions t ! i"
  have f: "find (\<lambda>d. def_name d = w) (parseGraphQLDefinitions t) = Some ?d"
    using assms(3,4,5) by (intro find_first) simp_all
  from assms(3) have "?d \<in> set (parseGraphQLDefinitions t)"
    by simp
  from parse_entry(3) [OF this] have "def_text ?d = trim (split_newline t ! def_line ?d)" .
  with assms(1,2) f word_at_cursor_nonempty [OF assms(2)] show ?thesis
    by (simp add: onDefinition_def definition_range_def)
qed

lemma onDefinition_none:
  assumes "documents uri = Some t" and "word_at_cursor t (offsetAt t pos) = Some w"
    and "\<forall>d \<in> set (parseGraphQLDefinitions t). def_name d \<noteq> w"
  shows "onDefinition offsetAt documents uri pos = None"
proof -
  from assms(3) have "find (\<lambda>d. def_name d = w) (parseGraphQLDefinitions t) = None"
    by (simp add: find_None_iff)
  with assms(1,2) show ?thesis
    by (simp add: onDefinition_def)
qed

lemma hover_definition_first:
  assumes "i < length (parseGraphQLDefinitions t)"
    and "def_name (parseGraphQLDefinitions t ! i) = w"
    and "\<forall>j < i. def_name (parseGraphQLDefinitions t ! j) \<noteq> w"
  shows "\<exists>fullDef. full_definition (split_newline t) (parseGraphQLDefinitions t ! i) = Inr fullDef \<and>
           hover_definition t w = Inr (Some (hover_markdown (parseGraphQLDefinitions t ! i) fullDef))"
proof -
  let ?d = "parseGraphQLDefinitions t ! i"
  have f: "find (\<lambda>d. def_name d = w) (parseGraphQLDefinitions t) = Some ?d"
    using assms by (intro find_first) simp_all
  from assms(1) have "?d \<in> set (parseGraphQLDefinitions t)"
    by simp
  from parse_entry(1) [OF this] obtain fullDef where
    fd: "full_definition (split_newline t) ?d = Inr fullDef"
    using full_definition_in_range by blast
  with f have "hover_definition t w = Inr (Some (hover_markdown ?d fullDef))"
    by (simp add: hover_definition_def hover_markdown_def Let_def split: option.splits)
  with fd show ?thesis by blast
qed

lemma hover_definition_none:
  assumes "\<forall>d \<in> set (parseGraphQLDefinitions t). def_name d \<noteq> w"
  shows "hover_definition t w = Inr None"
proof -
  from assms have "find (\<lambda>d. def_name d = w) (parseGraphQLDefinitions t) = None"
    by (simp add: find_None_iff)
  then show ?thesis
    by (simp add: hover_definition_def)
qed

lemma onHover_not_builtin:
  assumes "documents uri = Some t" and "word_at_cursor t (offsetAt t pos) = Some w"
    and "\<not> truthy (BUILTIN_SCALARS w)"
  shows "onHover inheritedText offsetAt documents uri pos = hover_definition t w"
  using assms word_at_cursor_nonempty [OF assms(2)] by (simp add: onHover_def)

lemma first_match_smallest_line:
  assumes "i < length (parseGraphQLDefinitions t)"
    and "\<forall>j < i. def_name (parseGraphQLDefinitions t ! j) \<noteq> w"
    and "k < length (parseGraphQLDefinitions t)"
    and "def_name (parseGraphQLDefinitions t ! k) = w" and "k \<noteq> i"
  shows "def_line (parseGraphQLDefinitions t ! i) < def_line (parseGraphQLDefinitions t ! k)"
proof -
  from assms(2,4) have "\<not> k < i" by auto
  with assms(5) have "i < k" by simp
  from sorted_lines_nth [OF parse_sorted this assms(3)] show ?thesis .
qed

text \<open>
  C2. For every document text and every query name, both handlers resolve the name to
  the first declaration in document order whose name equals it, compared as strings: the
  definition query returns the location of that declaration and the hover query describes it,
  and both return nothing when no declaration has that name. Every other declaration of that
  name has a larger line index. (The hover query reaches the resolver when the word has no
  entry in the table of built-in scalars.)
\<close>

theorem resolver_first_match:
  assumes "documents uri = Some text"
    and "word_at_cursor text (offsetAt text pos) = Some w"
  shows "((\<forall>d \<in> set (parseGraphQLDefinitions text). def_name d \<noteq> w) \<longrightarrow>
            onDefinition offsetAt documents uri pos = None \<and>
            (\<not> truthy (BUILTIN_SCALARS w) \<longrightarrow>
               onHover inheritedText offsetAt documents uri pos = Inr None)) \<and>
         (\<forall>i < length (parseGraphQLDefinitions text).
            def_name (parseGraphQLDefinitions text ! i) = w \<and>
            (\<forall>j < i. def_name (parseGraphQLDefinitions text ! j) \<noteq> w) \<longrightarrow>
              onDefinition offsetAt documents uri pos =
                Some \<lparr>loc_uri = uri,
                       loc_range =
                         \<lparr>range_start =
                            \<lparr>pos_line = def_line (parseGraphQLDefinitions text ! i),
                              pos_character = 0\<rparr>,
                          range_end =
                            \<lparr>pos_line = def_line (parseGraphQLDefinitions text ! i),
                              pos_character =
                                length (trim (split_newline text !
                                  def_line (parseGraphQLDefinitions text ! i)))\<rparr>\<rparr>\<rparr> \<and>
              (\<not> truthy (BUILTIN_SCALARS w) \<longrightarrow>
                 (\<exists>fullDef.
                    full_definition (split_newline text) (parseGraphQLDefinitions text ! i)
                      = Inr fullDef \<and>
                    onHover inheritedText offsetAt documents uri pos =
                      Inr (Some (hover_markdown (parseGraphQLDefinitions text ! i) fullDef)))) \<and>
              (\<forall>k < length (parseGraphQLDefinitions text).
                 def_name (parseGraphQLDefinitions text ! k) = w \<and> k \<noteq> i \<longrightarrow>
                   def_line (parseGraphQLDefinitions text ! i)
                     < def_line (parseGraphQLDefinitions text ! k)))"
proof (intro conjI allI impI)
  assume none: "\<forall>d \<in> set (parseGraphQLDefinitions text). def_name d \<noteq> w"
  from assms none show "onDefinition offsetAt documents uri pos = None"
    by (rule onDefinition_none)
  assume "\<not> truthy (BUILTIN_SCALARS w)"
  with assms have "onHover inheritedText offsetAt documents uri pos = hover_definition text w"
    by (rule onHover_not_builtin)
  with hover_definition_none [OF none]
  show "onHover inheritedText offsetAt documents uri pos = Inr None"
    by simp
next
  fix i
  assume i: "i < length (parseGraphQLDefinitions text)"
    and first: "def_name (parseGraphQLDefinitions text ! i) = w \<and>
      (\<forall>j < i. def_name (parseGraphQLDefinitions text ! j) \<noteq> w)"
  from first have nm: "def_name (parseGraphQLDefinitions text ! i) = w"
    and before: "\<forall>j < i. def_name (parseGraphQLDefinitions text ! j) \<noteq> w"
    by simp_all
  from assms i nm before
  show "onDefinition offsetAt documents uri pos =
                Some \<lparr>loc_uri = uri,
                       loc_range =
                         \<lparr>range_start =
                            \<lparr>pos_line = def_line (parseGraphQLDefinitions text ! i),
                              pos_character = 0\<rparr>,
                          range_end =
                            \<lparr>pos_line = def_line (parseGraphQLDefinitions text ! i),
                              pos_character =
                                length (trim (split_newline text !
                                  def_line (parseGraphQLDefinitions text ! i)))\<rparr>\<rparr>\<rparr>"
    by (rule onDefinition_first)
  {
    assume "\<not> truthy (BUILTIN_SCALARS w)"
    with assms have "onHover inheritedText offsetAt documents uri pos = hover_definition text w"
      by (rule onHover_not_builtin)
    with hover_definition_first [OF i nm before]
    show "\<exists>fullDef.
        full_definition (split_newline text) (parseGraphQLDefinitions text ! i) = Inr fullDef \<and>
        onHover inheritedText offsetAt documents uri pos =
          Inr (Some (hover_markdown (parseGraphQLDefinitions text ! i) fullDef))"
      by simp
  }
  {
    fix k
    assume "k < length (parseGraphQLDefinitions text)"
      and "def_name (parseGraphQLDefinitions text ! k) = w \<and> k \<noteq> i"
    with first_match_smallest_line [OF i before, of k]
    show "def_line (parseGraphQLDefinitions text ! i)
            < def_line (parseGraphQLDefinitions text ! k)"
      by simp
  }
qed

theorem resolver_first_match_witness:
  "onDefinition (\<lambda>t p. 11)
     [''file:///s.graphql'' \<mapsto>
        ''# foo'' @ [newline] @ ''type Foo {'' @ [newline] @ ''}'' @ [newline] @ ''enum Foo'']
     ''file:///s.graphql'' \<lparr>pos_line = 1, pos_character = 5\<rparr>
     = Some \<lparr>loc_uri = ''file:///s.graphql'',
              loc_range = \<lparr>range_start = \<lparr>pos_line = 1, pos_character = 0\<rparr>,
                           range_end = \<lparr>pos_line = 1, pos_character = 10\<rparr>\<rparr>\<rparr> \<and>
   onHover node_inheritedText (\<lambda>t p. 11)
     [''file:///s.graphql'' \<mapsto>
        ''# foo'' @ [newline] @ ''type Foo {'' @ [newline] @ ''}'' @ [newline] @ ''enum Foo'']
     ''file:///s.graphql'' \<lparr>pos_line = 1, pos_character = 5\<rparr>
     = Inr (Some \<lparr>contents_kind = ''markdown'',
                   contents_value = ''```graphql'' @ [newline] @ ''# foo'' @ [newline] @
                     ''type Foo {'' @ [newline] @ ''}'' @ [newline] @ ''```''\<rparr>) \<and>
   onDefinition (\<lambda>t p. 2)
     [''file:///s.graphql'' \<mapsto>
        ''# foo'' @ [newline] @ ''type Foo {'' @ [newline] @ ''}'' @ [newline] @ ''enum Foo'']
     ''file:///s.graphql'' \<lparr>pos_line = 0, pos_character = 2\<rparr> = None \<and>
   onHover node_inheritedText (\<lambda>t p. 2)
     [''file:///s.graphql'' \<mapsto>
        ''# foo'' @ [newline] @ ''type Foo {'' @ [newline] @ ''}'' @ [newline] @ ''enum Foo'']
     ''file:///s.graphql'' \<lparr>pos_line = 0, pos_character = 2\<rparr> = Inr None"
proof -
  let ?t = "''# foo'' @ [newline] @ ''type Foo {'' @ [newline] @ ''}'' @ [newline] @ ''enum Foo''"
  let ?docs = "[''file:///s.graphql'' \<mapsto> ?t]"
  let ?u = "''file:///s.graphql''"
  let ?d = "\<lparr>def_kind = ''type'', def_name = ''Foo'', def_line = 1, def_text = ''type Foo {'',
             def_documentation = Some ''# foo''\<rparr>"
  let ?e = "\<lparr>def_kind = ''enum'', def_name = ''Foo'', def_line = 3, def_text = ''enum Foo'',
             def_documentation = None\<rparr>"
  let ?p1 = "\<lparr>pos_line = 1, pos_character = 5\<rparr>"
  let ?p0 = "\<lparr>pos_line = 0, pos_character = 2\<rparr>"
  have p: "parseGraphQLDefinitions ?t = [?d, ?e]"
    by code_simp
  have sp: "split_newline ?t = [''# foo'', ''type Foo {'', ''}'', ''enum Foo'']"
    by code_simp
  have doc: "?docs ?u = Some ?t"
    by simp
  have w1: "word_at_cursor ?t ((\<lambda>t p. 11) ?t ?p1) = Some ''Foo''"
    by code_simp
  have w0: "word_at_cursor ?t ((\<lambda>t p. 2) ?t ?p0) = Some ''foo''"
    by code_simp
  have nb1: "\<not> truthy (BUILTIN_SCALARS ''Foo'')"
    by code_simp
  have nb0: "\<not> truthy (BUILTIN_SCALARS ''foo'')"
    by code_simp
  have fd: "full_definition [''# foo'', ''type Foo {'', ''}'', ''enum Foo''] ?d
      = Inr (''type Foo {'' @ [newline] @ ''}'')"
    by code_simp
  have tr: "length (trim ''type Foo {'') = 10"
    by code_simp
  have first: "(0::nat) < length (parseGraphQLDefinitions ?t) \<and>
      def_name (parseGraphQLDefinitions ?t ! 0) = ''Foo'' \<and>
      (\<forall>j < (0::nat). def_name (parseGraphQLDefinitions ?t ! j) \<noteq> ''Foo'')"
    unfolding p by simp
  have none: "\<forall>d \<in> set (parseGraphQLDefinitions ?t). def_name d \<noteq> ''foo''"
    unfolding p by simp
  note found = resolver_first_match
    [of ?docs ?u ?t "\<lambda>t p. 11" ?p1 "''Foo''" node_inheritedText, OF doc w1]
  note absent = resolver_first_match
    [of ?docs ?u ?t "\<lambda>t p. 2" ?p0 "''foo''" node_inheritedText, OF doc w0]
  from found first have def1: "onDefinition (\<lambda>t p. 11) ?docs ?u ?p1 =
      Some \<lparr>loc_uri = ?u,
             loc_range =
               \<lparr>range_start = \<lparr>pos_line = def_line (parseGraphQLDefinitions ?t ! 0),
                                pos_character = 0\<rparr>,
                range_end = \<lparr>pos_line = def_line (parseGraphQLDefinitions ?t ! 0),
                              pos_character =
                                length (trim (split_newline ?t !
                                  def_line (parseGraphQLDefinitions ?t ! 0)))\<rparr>\<rparr>\<rparr>"
    by blast
  from found first nb1 obtain fullDef where
    h: "full_definition (split_newline ?t) (parseGraphQLDefinitions ?t ! 0) = Inr fullDef"
      "onHover node_inheritedText (\<lambda>t p. 11) ?docs ?u ?p1 =
         Inr (Some (hover_markdown (parseGraphQLDefinitions ?t ! 0) fullDef))"
    by blast
  from h(1) have "fullDef = ''type Foo {'' @ [newline] @ ''}''"
    unfolding p sp using fd by simp
  with h(2) have hov1: "onHover node_inheritedText (\<lambda>t p. 11) ?docs ?u ?p1 =
      Inr (Some \<lparr>contents_kind = ''markdown'',
                  contents_value = ''```graphql'' @ [newline] @ ''# foo'' @ [newline] @
                    ''type Foo {'' @ [newline] @ ''}'' @ [newline] @ ''```''\<rparr>)"
    unfolding p by (simp add: hover_markdown_def)
  from def1 have def1': "onDefinition (\<lambda>t p. 11) ?docs ?u ?p1 =
      Some \<lparr>loc_uri = ?u,
             loc_range = \<lparr>range_start = \<lparr>pos_line = 1, pos_character = 0\<rparr>,
                          range_end = \<lparr>pos_line = 1, pos_character = 10\<rparr>\<rparr>\<rparr>"
    unfolding p sp using tr by simp
  from absent none nb0 have abs: "onDefinition (\<lambda>t p. 2) ?docs ?u ?p0 = None"
      "onHover node_inheritedText (\<lambda>t p. 2) ?docs ?u ?p0 = Inr None"
    by blast+
  from def1' hov1 abs show ?thesis
    by (intro conjI)
qed

text \<open>
  For the five names of the table the hover query returns the fixed description, whatever the
  document declares. A word that is neither one of the five names nor the name of an inherited
  property goes through the scanner.
\<close>

lemma builtin_own:
  "(w, description) \<in> set BUILTIN_SCALARS_own \<Longrightarrow>
     BUILTIN_SCALARS w = Some (JSString description) \<and> description \<noteq> []"
  by (auto simp: BUILTIN_SCALARS_own_def BUILTIN_SCALARS_def)

lemma onHover_builtin:
  assumes "documents uri = Some t" and "word_at_cursor t (offsetAt t pos) = Some w"
    and "(w, description) \<in> set BUILTIN_SCALARS_own"
  shows "onHover inheritedText offsetAt documents uri pos = Inr (Some (builtin_markdown w description))"
  using assms word_at_cursor_nonempty [OF assms(2)] builtin_own [OF assms(3)]
  by (simp add: onHover_def builtin_markdown_def)

lemma onHover_fallthrough:
  assumes "documents uri = Some t" and "word_at_cursor t (offsetAt t pos) = Some w"
    and "w \<notin> set (map fst BUILTIN_SCALARS_own)" and "w \<notin> set Object_prototype_names"
  shows "onHover inheritedText offsetAt documents uri pos = hover_definition t w"
proof -
  from assms(3) have "map_of BUILTIN_SCALARS_own w = None"
    by (simp add: map_of_eq_None_iff)
  with assms(4) have "BUILTIN_SCALARS w = None"
    by (simp add: BUILTIN_SCALARS_def)
  with assms(1,2) word_at_cursor_nonempty [OF assms(2)] show ?thesis
    by (simp add: onHover_def)
qed

text \<open>
  C10. The definition query does not consult the table of built-in scalars: whenever the
  document declares the word under the cursor, the query returns the location of the first
  declaration of that name, that is its line, from character 0 to the length of the trimmed
  line, also when the name is one of the five built-in scalar names; on the same input the
  hover query returns the built-in description.
\<close>

theorem definition_ignores_builtin_table:
  assumes "documents uri = Some text"
    and "word_at_cursor text (offsetAt text pos) = Some w"
    and "d0 \<in> set (parseGraphQLDefinitions text)" and "def_name d0 = w"
  shows "\<exists>i < length (parseGraphQLDefinitions text).
           def_name (parseGraphQLDefinitions text ! i) = w \<and>
           (\<forall>j < i. def_name (parseGraphQLDefinitions text ! j) \<noteq> w) \<and>
           def_line (parseGraphQLDefinitions text ! i) < length (split_newline text) \<and>
           definitionPattern (split_newline text ! def_line (parseGraphQLDefinitions text ! i))
             = Some (def_kind (parseGraphQLDefinitions text ! i), w) \<and>
           onDefinition offsetAt documents uri pos =
             Some \<lparr>loc_uri = uri,
                    loc_range =
                      \<lparr>range_start =
                         \<lparr>pos_line = def_line (parseGraphQLDefinitions text ! i),
                           pos_character = 0\<rparr>,
                       range_end =
                         \<lparr>pos_line = def_line (parseGraphQLDefinitions text ! i),
                           pos_character =
                             length (trim (split_newline text !
                               def_line (parseGraphQLDefinitions text ! i)))\<rparr>\<rparr>\<rparr> \<and>
           (\<forall>description. (w, description) \<in> set BUILTIN_SCALARS_own \<longrightarrow>
              onHover inheritedText offsetAt documents uri pos =
                Inr (Some (builtin_markdown w description)))"
proof -
  let ?ds = "parseGraphQLDefinitions text"
  from assms(3,4) obtain d where "find (\<lambda>d. def_name d = w) ?ds = Some d"
    by (cases "find (\<lambda>d. def_name d = w) ?ds") (auto simp: find_None_iff)
  then obtain i where i: "i < length ?ds" "def_name (?ds ! i) = w"
    "\<forall>j < i. def_name (?ds ! j) \<noteq> w"
    by (auto simp: find_Some_iff)
  from i(1) have m: "?ds ! i \<in> set ?ds"
    by simp
  note e = parse_entry [OF m]
  have "onHover inheritedText offsetAt documents uri pos =
      Inr (Some (builtin_markdown w description))"
    if "(w, description) \<in> set BUILTIN_SCALARS_own" for description
    using assms(1,2) that by (rule onHover_builtin)
  then have hov: "\<forall>description. (w, description) \<in> set BUILTIN_SCALARS_own \<longrightarrow>
      onHover inheritedText offsetAt documents uri pos =
        Inr (Some (builtin_markdown w description))"
    by blast
  from assms(1,2) i have loc: "onDefinition offsetAt documents uri pos =
             Some \<lparr>loc_uri = uri,
                    loc_range =
                      \<lparr>range_start =
                         \<lparr>pos_line = def_line (?ds ! i), pos_character = 0\<rparr>,
                       range_end =
                         \<lparr>pos_line = def_line (?ds ! i),
                           pos_character =
                             length (trim (split_newline text ! def_line (?ds ! i)))\<rparr>\<rparr>\<rparr>"
    by (rule onDefinition_first)
  from e(2) i(2) have pat: "definitionPattern (split_newline text ! def_line (?ds ! i))
      = Some (def_kind (?ds ! i), w)"
    by simp
  from i e(1) pat loc hov show ?thesis
    by blast
qed

theorem definition_ignores_builtin_table_witness:
  "onDefinition (\<lambda>t p. 16) [''file:///s.graphql'' \<mapsto> ''type A'' @ [newline] @ ''scalar String'']
       ''file:///s.graphql'' \<lparr>pos_line = 1, pos_character = 9\<rparr>
     = Some \<lparr>loc_uri = ''file:///s.graphql'',
              loc_range = \<lparr>range_start = \<lparr>pos_line = 1, pos_character = 0\<rparr>,
                           range_end = \<lparr>pos_line = 1, pos_character = 13\<rparr>\<rparr>\<rparr> \<and>
   onHover node_inheritedText (\<lambda>t p. 16)
       [''file:///s.graphql'' \<mapsto> ''type A'' @ [newline] @ ''scalar String'']
       ''file:///s.graphql'' \<lparr>pos_line = 1, pos_character = 9\<rparr>
     = Inr (Some (builtin_markdown ''String''
         ''The String scalar type represents textual data, represented as UTF-8 character sequences.''))"
proof -
  let ?t = "''type A'' @ [newline] @ ''scalar String''"
  let ?u = "''file:///s.graphql''"
  let ?docs = "[?u \<mapsto> ?t]"
  let ?pos = "\<lparr>pos_line = 1, pos_character = 9\<rparr>"
  let ?a = "\<lparr>def_kind = ''type'', def_name = ''A'', def_line = 0,
             def_text = ''type A'', def_documentation = None\<rparr>"
  let ?d = "\<lparr>def_kind = ''scalar'', def_name = ''String'', def_line = 1,
             def_text = ''scalar String'', def_documentation = None\<rparr>"
  let ?desc = "''The String scalar type represents textual data, represented as UTF-8 character sequences.''"
  have p: "parseGraphQLDefinitions ?t = [?a, ?d]"
    by code_simp
  have sp: "split_newline ?t = [''type A'', ''scalar String'']"
    by code_simp
  have tr: "length (trim ''scalar String'') = 13"
    by code_simp
  have h1: "?docs ?u = Some ?t"
    by simp
  have h2: "word_at_cursor ?t ((\<lambda>t p. 16) ?t ?pos) = Some ''String''"
    by code_simp
  have h3: "?d \<in> set (parseGraphQLDefinitions ?t)"
    unfolding p by simp
  have h4: "def_name ?d = ''String''"
    by simp
  have b: "(''String'', ?desc) \<in> set BUILTIN_SCALARS_own"
    by (simp add: BUILTIN_SCALARS_own_def)
  from definition_ignores_builtin_table
      [of ?docs ?u ?t "\<lambda>t p. 16" ?pos "''String''" ?d node_inheritedText, OF h1 h2 h3 h4]
  obtain i where i: "i < length (parseGraphQLDefinitions ?t)"
      "def_name (parseGraphQLDefinitions ?t ! i) = ''String''"
    and loc: "onDefinition (\<lambda>t p. 16) ?docs ?u ?pos =
             Some \<lparr>loc_uri = ?u,
                    loc_range =
                      \<lparr>range_start =
                         \<lparr>pos_line = def_line (parseGraphQLDefinitions ?t ! i),
                           pos_character = 0\<rparr>,
                       range_end =
                         \<lparr>pos_line = def_line (parseGraphQLDefinitions ?t ! i),
                           pos_character =
                             length (trim (split_newline ?t !
                               def_line (parseGraphQLDefinitions ?t ! i)))\<rparr>\<rparr>\<rparr>"
    and hov: "\<forall>description. (''String'', description) \<in> set BUILTIN_SCALARS_own \<longrightarrow>
              onHover node_inheritedText (\<lambda>t p. 16) ?docs ?u ?pos =
                Inr (Some (builtin_markdown ''String'' description))"
    by blast
  from i have "i = 1"
    unfolding p by (cases i) auto
  with loc have loc': "onDefinition (\<lambda>t p. 16) ?docs ?u ?pos =
      Some \<lparr>loc_uri = ?u,
             loc_range = \<lparr>range_start = \<lparr>pos_line = 1, pos_character = 0\<rparr>,
                          range_end = \<lparr>pos_line = 1, pos_character = 13\<rparr>\<rparr>\<rparr>"
    unfolding p sp using tr by simp
  from hov b have "onHover node_inheritedText (\<lambda>t p. 16) ?docs ?u ?pos =
      Inr (Some (builtin_markdown ''String'' ?desc))"
    by blast
  with loc' show ?thesis
    by (intro conjI)
qed

text \<open>
  C1. The built-in branch of the hover query is meant for the five names of the table.
  The lookup \<^verbatim>\<open>BUILTIN_SCALARS[word]\<close> also finds the properties every object inherits: on a
  document with a field called \<^verbatim>\<open>constructor\<close>, which is not one of the five names and is not
  declared, hovering the field takes the built-in branch and returns a description whose text
  is the inherited value, where the path through the scanner returns nothing.
\<close>

theorem hover_builtin_branch_on_inherited_name:
  "word_at_cursor (''type A {'' @ [newline] @ ''  constructor: Int'' @ [newline] @ ''}'') 13
     = Some ''constructor'' \<and>
   ''constructor'' \<notin> set (map fst BUILTIN_SCALARS_own) \<and>
   hover_definition (''type A {'' @ [newline] @ ''  constructor: Int'' @ [newline] @ ''}'')
     ''constructor'' = Inr None \<and>
   onHover inheritedText (\<lambda>t p. 13)
     [''file:///s.graphql'' \<mapsto> ''type A {'' @ [newline] @ ''  constructor: Int'' @ [newline] @ ''}'']
     ''file:///s.graphql'' \<lparr>pos_line = 1, pos_character = 4\<rparr>
     = Inr (Some (builtin_markdown ''constructor'' (inheritedText ''constructor'')))"
  by code_simp

text \<open>
  No query fails: the line of a scanned declaration is a line of the document, so the span
  expansion never reads \<^verbatim>\<open>undefined\<close>. A missing document, a missing word and a missing
  declaration give an absent result.
\<close>

lemma hover_definition_total: "\<exists>r. hover_definition t w = Inr r"
proof (cases "find (\<lambda>d. def_name d = w) (parseGraphQLDefinitions t)")
  case None
  then show ?thesis by (simp add: hover_definition_def)
next
  case (Some d)
  then have "d \<in> set (parseGraphQLDefinitions t)"
    by (auto simp: find_Some_iff)
  from parse_entry(1) [OF this] obtain r where "full_definition (split_newline t) d = Inr r"
    using full_definition_in_range by blast
  with Some show ?thesis
    by (simp add: hover_definition_def Let_def)
qed

lemma onHover_total: "\<exists>r. onHover inheritedText offsetAt documents uri pos = Inr r"
  using hover_definition_total
  by (auto simp: onHover_def split: option.splits)

lemma absent_results:
  "documents uri = None \<Longrightarrow>
     onDefinition offsetAt documents uri pos = None \<and>
     onHover inheritedText offsetAt documents uri pos = Inr None \<and>
     onDocumentSymbol documents uri = []"
  "documents uri = Some t \<Longrightarrow> word_at_cursor t (offsetAt t pos) = None \<Longrightarrow>
     onDefinition offsetAt documents uri pos = None \<and>
     onHover inheritedText offsetAt documents uri pos = Inr None"
  "documents uri = Some t \<Longrightarrow> word_at_cursor t (offsetAt t pos) = Some w \<Longrightarrow>
   \<forall>d \<in> set (parseGraphQLDefinitions t). def_name d \<noteq> w \<Longrightarrow>
     onDefinition offsetAt documents uri pos = None \<and>
     (\<not> truthy (BUILTIN_SCALARS w) \<longrightarrow>
        onHover inheritedText offsetAt documents uri pos = Inr None)"
  "documents uri = Some t \<Longrightarrow> parseGraphQLDefinitions t = [] \<Longrightarrow>
     onDocumentSymbol documents uri = []"
  "parseGraphQLDefinitions [] = []"
proof -
  show "parseGraphQLDefinitions [] = []"
    by code_simp
  show "onDefinition offsetAt documents uri pos = None \<and>
     (\<not> truthy (BUILTIN_SCALARS w) \<longrightarrow>
        onHover inheritedText offsetAt documents uri pos = Inr None)"
    if "documents uri = Some t" "word_at_cursor t (offsetAt t pos) = Some w"
      "\<forall>d \<in> set (parseGraphQLDefinitions t). def_name d \<noteq> w"
  proof -
    from that(3) have "find (\<lambda>d. def_name d = w) (parseGraphQLDefinitions t) = None"
      by (simp add: find_None_iff)
    with that(1,2) show ?thesis
      by (simp add: onDefinition_def onHover_def hover_definition_def)
  qed
qed (simp_all add: onDefinition_def onHover_def onDocumentSymbol_def)

text \<open>
  C9. The three queries never fail, and a lookup that finds neither a word nor a
  declaration gives an absent result, with one exception in the hover query: for the document
  \<^verbatim>\<open>toString\<close>, which declares nothing, the definition query returns nothing while the hover
  query returns a description, because the word is the name of an inherited property of the
  table of built-in scalars.
\<close>

theorem hover_not_absent_on_inherited_name:
  "parseGraphQLDefinitions ''toString'' = [] \<and>
   ''toString'' \<notin> set (map fst BUILTIN_SCALARS_own) \<and>
   onDefinition (\<lambda>t p. 0) [''file:///s.graphql'' \<mapsto> ''toString''] ''file:///s.graphql''
     \<lparr>pos_line = 0, pos_character = 0\<rparr> = None \<and>
   onHover inheritedText (\<lambda>t p. 0) [''file:///s.graphql'' \<mapsto> ''toString'']
     ''file:///s.graphql'' \<lparr>pos_line = 0, pos_character = 0\<rparr>
     = Inr (Some (builtin_markdown ''toString'' (inheritedText ''toString'')))"
  by code_simp

section \<open>Properties of the span expansion\<close>

lemma join_newline_Cons: "join_newline (x # xs) = x @ concat (map ((#) newline) xs)"
  by (induction xs arbitrary: x) auto

lemma brace_balance_Cons:
  "brace_balance (l # ls) = count_char (CHR ''{'') l - count_char (CHR ''}'') l + brace_balance ls"
  by (simp add: brace_balance_def)

lemma expand_braces_loop:
  "\<exists>k. e + k \<le> max e (length ls) \<and>
       expand_braces ls e b acc = acc @ concat (map ((#) newline) (take k (drop e ls))) \<and>
       (\<forall>m < k. 0 < b + brace_balance (take m (drop e ls))) \<and>
       (length ls \<le> e + k \<or> b + brace_balance (take k (drop e ls)) \<le> 0)"
proof (induction ls e b acc rule: expand_braces.induct)
  case (1 ls e b acc)
  show ?case
  proof (cases "e < length ls \<and> b > 0")
    case False
    then have "expand_braces ls e b acc = acc"
      using expand_braces.simps [of ls e b acc] by auto
    with False show ?thesis
      by (intro exI [of _ 0]) (auto simp: brace_balance_def)
  next
    case True
    let ?l = "ls ! e"
    let ?d = "count_char (CHR ''{'') ?l - count_char (CHR ''}'') ?l"
    from True have step: "expand_braces ls e b acc =
        expand_braces ls (Suc e) (b + ?d) (acc @ [newline] @ ?l)"
      using expand_braces.simps [of ls e b acc] by (simp add: Let_def)
    from "1.IH" [OF True refl] obtain k where
      k: "Suc e + k \<le> max (Suc e) (length ls)"
      "expand_braces ls (Suc e) (b + ?d) (acc @ [newline] @ ?l) =
         (acc @ [newline] @ ?l) @ concat (map ((#) newline) (take k (drop (Suc e) ls)))"
      "\<forall>m < k. 0 < (b + ?d) + brace_balance (take m (drop (Suc e) ls))"
      "length ls \<le> Suc e + k \<or> (b + ?d) + brace_balance (take k (drop (Suc e) ls)) \<le> 0"
      by blast
    from True have dr: "drop e ls = ?l # drop (Suc e) ls"
      by (simp add: Cons_nth_drop_Suc)
    have "e + Suc k \<le> max e (length ls)"
      using k(1) True by simp
    moreover have "expand_braces ls e b acc =
        acc @ concat (map ((#) newline) (take (Suc k) (drop e ls)))"
      unfolding step k(2) dr by simp
    moreover have "\<forall>m < Suc k. 0 < b + brace_balance (take m (drop e ls))"
    proof (intro allI impI)
      fix m assume "m < Suc k"
      show "0 < b + brace_balance (take m (drop e ls))"
      proof (cases m)
        case 0
        with True show ?thesis by (simp add: brace_balance_def)
      next
        case (Suc m')
        with \<open>m < Suc k\<close> k(3) have "0 < (b + ?d) + brace_balance (take m' (drop (Suc e) ls))"
          by simp
        then show ?thesis
          unfolding Suc dr by (simp add: brace_balance_Cons)
      qed
    qed
    moreover have "length ls \<le> e + Suc k \<or> b + brace_balance (take (Suc k) (drop e ls)) \<le> 0"
      using k(4) unfolding dr by (auto simp: brace_balance_Cons)
    ultimately show ?thesis by blast
  qed
qed

lemma expand_union_loop:
  "expand_union ls e acc = acc @ concat (map ((#) newline) (takeWhile continues_union (drop e ls)))"
proof (induction ls e acc rule: expand_union.induct)
  case (1 ls e acc)
  show ?case
  proof (cases "e < length ls \<and> continues_union (ls ! e)")
    case False
    then have "expand_union ls e acc = acc"
      using expand_union.simps [of ls e acc] by (auto simp: continues_union_def)
    moreover from False have "takeWhile continues_union (drop e ls) = []"
      by (cases "e < length ls") (auto simp: Cons_nth_drop_Suc [symmetric])
    ultimately show ?thesis by simp
  next
    case True
    then have step: "expand_union ls e acc = expand_union ls (Suc e) (acc @ [newline] @ ls ! e)"
      using expand_union.simps [of ls e acc] by (simp add: continues_union_def)
    from True have c: "e < length ls \<and> startsWith (trim (ls ! e)) ''|''"
      by (simp add: continues_union_def)
    from True have dr: "drop e ls = ls ! e # drop (Suc e) ls"
      by (simp add: Cons_nth_drop_Suc)
    show ?thesis
      unfolding step "1.IH" [OF c] dr using True by simp
  qed
qed

text \<open>
  C4. For the kinds type, interface, input and enum the span is the raw introducer line
  and the lines after it, joined by newline: \<open>n\<close> lines are consumed, at least the introducer;
  after each shorter non-empty prefix the brace balance was positive, and after \<open>n\<close> lines
  either the document ends or the balance is no longer positive. No error arises.
\<close>

theorem brace_span_expansion:
  assumes "def_kind d \<in> {''type'', ''interface'', ''input'', ''enum''}"
    and "def_line d < length lines"
  shows "\<exists>n. 1 \<le> n \<and> def_line d + n \<le> length lines \<and>
     full_definition lines d = Inr (join_newline (take n (drop (def_line d) lines))) \<and>
     (\<forall>m. 1 \<le> m \<and> m < n \<longrightarrow> 0 < brace_balance (take m (drop (def_line d) lines))) \<and>
     (def_line d + n = length lines \<or> brace_balance (take n (drop (def_line d) lines)) \<le> 0)"
proof -
  let ?s = "def_line d"
  let ?l = "lines ! ?s"
  let ?b = "count_char (CHR ''{'') ?l - count_char (CHR ''}'') ?l"
  from assms have fd: "full_definition lines d = Inr (expand_braces lines (Suc ?s) ?b ?l)"
    by (auto simp: full_definition_def Let_def)
  from assms(2) have dr: "drop ?s lines = ?l # drop (Suc ?s) lines"
    by (simp add: Cons_nth_drop_Suc)
  from expand_braces_loop [of "Suc ?s" lines ?b ?l] obtain k where
    k: "Suc ?s + k \<le> max (Suc ?s) (length lines)"
    "expand_braces lines (Suc ?s) ?b ?l = ?l @ concat (map ((#) newline) (take k (drop (Suc ?s) lines)))"
    "\<forall>m < k. 0 < ?b + brace_balance (take m (drop (Suc ?s) lines))"
    "length lines \<le> Suc ?s + k \<or> ?b + brace_balance (take k (drop (Suc ?s) lines)) \<le> 0"
    by blast
  have "1 \<le> Suc k" by simp
  moreover have "?s + Suc k \<le> length lines"
    using k(1) assms(2) by simp
  moreover have "full_definition lines d = Inr (join_newline (take (Suc k) (drop ?s lines)))"
    unfolding fd k(2) dr by (simp add: join_newline_Cons)
  moreover have "\<forall>m. 1 \<le> m \<and> m < Suc k \<longrightarrow> 0 < brace_balance (take m (drop ?s lines))"
  proof (intro allI impI)
    fix m assume m: "1 \<le> m \<and> m < Suc k"
    then obtain m' where m': "m = Suc m'" "m' < k"
      by (cases m) auto
    with k(3) have "0 < ?b + brace_balance (take m' (drop (Suc ?s) lines))"
      by simp
    then show "0 < brace_balance (take m (drop ?s lines))"
      unfolding m'(1) dr by (simp add: brace_balance_Cons)
  qed
  moreover have "?s + Suc k = length lines \<or> brace_balance (take (Suc k) (drop ?s lines)) \<le> 0"
  proof (cases "length lines \<le> Suc ?s + k")
    case True
    with \<open>?s + Suc k \<le> length lines\<close> show ?thesis by simp
  next
    case False
    with k(4) have "?b + brace_balance (take k (drop (Suc ?s) lines)) \<le> 0"
      by simp
    then show ?thesis
      unfolding dr by (simp add: brace_balance_Cons)
  qed
  ultimately show ?thesis by blast
qed

theorem brace_span_expansion_witness:
  "full_definition [''type User {'', ''  id: ID!'', ''}'', ''scalar Date'']
     \<lparr>def_kind = ''type'', def_name = ''User'', def_line = 0, def_text = ''type User {'',
       def_documentation = None\<rparr>
     = Inr (join_newline [''type User {'', ''  id: ID!'', ''}'']) \<and>
   full_definition [''scalar Date'', ''type X {'', ''  a: Int'']
     \<lparr>def_kind = ''type'', def_name = ''X'', def_line = 1, def_text = ''type X {'',
       def_documentation = None\<rparr>
     = Inr (join_newline [''type X {'', ''  a: Int''])"
proof -
  let ?L = "[''type User {'', ''  id: ID!'', ''}'', ''scalar Date'']"
  let ?d = "\<lparr>def_kind = ''type'', def_name = ''User'', def_line = 0, def_text = ''type User {'',
       def_documentation = None\<rparr>"
  have b: "brace_balance (take 1 ?L) = 1" "brace_balance (take 2 ?L) = 1"
      "brace_balance (take 3 ?L) = 0"
    by code_simp+
  have hd: "def_kind ?d \<in> {''type'', ''interface'', ''input'', ''enum''}" "def_line ?d < length ?L"
    by simp_all
  from brace_span_expansion [OF hd] obtain n where
    raw: "1 \<le> n" "def_line ?d + n \<le> length ?L"
      "full_definition ?L ?d = Inr (join_newline (take n (drop (def_line ?d) ?L)))"
      "\<forall>m. 1 \<le> m \<and> m < n \<longrightarrow> 0 < brace_balance (take m (drop (def_line ?d) ?L))"
      "def_line ?d + n = length ?L \<or> brace_balance (take n (drop (def_line ?d) ?L)) \<le> 0"
    by blast
  from raw(1) have n1: "1 \<le> n" .
  from raw(3) have n3: "full_definition ?L ?d = Inr (join_newline (take n ?L))"
    by simp
  from raw(4) have n4: "\<forall>m. 1 \<le> m \<and> m < n \<longrightarrow> 0 < brace_balance (take m ?L)"
    by simp
  from raw(5) have n5: "n = 4 \<or> brace_balance (take n ?L) \<le> 0"
    by (simp add: eval_nat_numeral)
  have "\<not> 3 < n"
  proof
    assume "3 < n"
    with n4 [rule_format, of 3] have "0 < brace_balance (take 3 ?L)" by simp
    with b(3) show False by simp
  qed
  moreover from n5 b(1,2) have "n \<noteq> 1" "n \<noteq> 2"
    by auto
  ultimately have "n = 3"
    using n1 by arith
  with n3 have one: "full_definition ?L ?d = Inr (join_newline [''type User {'', ''  id: ID!'', ''}''])"
    by simp
  let ?M = "[''scalar Date'', ''type X {'', ''  a: Int'']"
  let ?e = "\<lparr>def_kind = ''type'', def_name = ''X'', def_line = 1, def_text = ''type X {'',
       def_documentation = None\<rparr>"
  have c: "brace_balance (take 1 (drop 1 ?M)) = 1" "brace_balance (take 2 (drop 1 ?M)) = 1"
    by code_simp+
  have he: "def_kind ?e \<in> {''type'', ''interface'', ''input'', ''enum''}" "def_line ?e < length ?M"
    by simp_all
  from brace_span_expansion [OF he] obtain k where
    rawk: "1 \<le> k" "def_line ?e + k \<le> length ?M"
      "full_definition ?M ?e = Inr (join_newline (take k (drop (def_line ?e) ?M)))"
      "def_line ?e + k = length ?M \<or> brace_balance (take k (drop (def_line ?e) ?M)) \<le> 0"
    by blast
  from rawk(2) have k2: "k \<le> 2" by simp
  from rawk(3) have k3: "full_definition ?M ?e = Inr (join_newline (take k (drop 1 ?M)))"
    by simp
  from rawk(4) have k4: "k = 2 \<or> brace_balance (take k (drop 1 ?M)) \<le> 0"
    by (simp add: eval_nat_numeral)
  have "k = 2"
  proof (rule ccontr)
    assume "k \<noteq> 2"
    with rawk(1) k2 have "k = 1" by arith
    with k4 c(1) show False by simp
  qed
  with k3 have "full_definition ?M ?e = Inr (join_newline [''type X {'', ''  a: Int''])"
    by simp
  with one show ?thesis by simp
qed

text \<open>
  C7. For the kind union the span is the introducer line followed by the longest run of
  the next lines whose trimmed text begins with \<^verbatim>\<open>|\<close>, whatever braces they hold; for the kind
  scalar it is the introducer line alone.
\<close>

theorem union_and_scalar_span:
  assumes "def_line d < length lines"
  shows "(def_kind d = ''union'' \<longrightarrow>
           full_definition lines d =
             Inr (join_newline (lines ! def_line d #
                    takeWhile continues_union (drop (Suc (def_line d)) lines)))) \<and>
         (def_kind d = ''scalar'' \<longrightarrow> full_definition lines d = Inr (lines ! def_line d))"
  using assms
  by (simp add: full_definition_def expand_union_loop join_newline_Cons)

theorem union_and_scalar_span_witness:
  "full_definition [''union U ='', ''  | A'', ''  | B'', ''type X {'', ''}'']
     \<lparr>def_kind = ''union'', def_name = ''U'', def_line = 0, def_text = ''union U ='',
       def_documentation = None\<rparr>
     = Inr (join_newline [''union U ='', ''  | A'', ''  | B'']) \<and>
   full_definition [''scalar Date {'', ''  | A'', ''}'']
     \<lparr>def_kind = ''scalar'', def_name = ''Date'', def_line = 0, def_text = ''scalar Date {'',
       def_documentation = None\<rparr>
     = Inr ''scalar Date {''"
proof -
  let ?L = "[''union U ='', ''  | A'', ''  | B'', ''type X {'', ''}'']"
  let ?d = "\<lparr>def_kind = ''union'', def_name = ''U'', def_line = 0, def_text = ''union U ='',
       def_documentation = None\<rparr>"
  let ?M = "[''scalar Date {'', ''  | A'', ''}'']"
  let ?e = "\<lparr>def_kind = ''scalar'', def_name = ''Date'', def_line = 0, def_text = ''scalar Date {'',
       def_documentation = None\<rparr>"
  have t: "takeWhile continues_union (drop (Suc 0) ?L) = [''  | A'', ''  | B'']"
    by code_simp
  from union_and_scalar_span [of ?d ?L] t
  have "full_definition ?L ?d = Inr (join_newline [''union U ='', ''  | A'', ''  | B''])"
    by simp
  moreover from union_and_scalar_span [of ?e ?M]
  have "full_definition ?M ?e = Inr ''scalar Date {''"
    by simp
  ultimately show ?thesis by simp
qed

section \<open>Properties of comments and documentation\<close>

lemma scan_lines_append:
  "scan_lines s i (xs @ ys) = scan_lines (scan_lines s i xs) (i + length xs) ys"
  by (induction xs arbitrary: s i) simp_all

lemma scan_line_flag:
  "inMultiLineComment (scan_line s l i) = (inMultiLineComment s \<noteq> toggles l)"
  by (auto simp: scan_line_def toggles_def Let_def split: option.splits)

lemma scan_lines_flag:
  "inMultiLineComment (scan_lines s i ls) =
     (inMultiLineComment s \<noteq> odd (length (filter toggles ls)))"
  by (induction ls arbitrary: s i) (auto simp: scan_line_flag)

lemma scan_line_inside:
  assumes "inMultiLineComment s"
  shows "currentDoc (scan_line s l i) = currentDoc s @ [l]"
    and "definitions (scan_line s l i) = definitions s"
  using assms by (auto simp: scan_line_def Let_def)

lemma scan_lines_inside:
  "inMultiLineComment s \<Longrightarrow> \<forall>l \<in> set ls. \<not> toggles l \<Longrightarrow>
     definitions (scan_lines s i ls) = definitions s \<and>
     currentDoc (scan_lines s i ls) = currentDoc s @ ls \<and>
     inMultiLineComment (scan_lines s i ls)"
proof (induction ls arbitrary: s i)
  case Nil
  then show ?case by simp
next
  case (Cons l ls)
  from Cons.prems have "inMultiLineComment (scan_line s l i)"
    by (simp add: scan_line_flag)
  from Cons.IH [OF this, of "Suc i"] Cons.prems show ?case
    by (simp add: scan_line_inside)
qed

lemma scan_lines_bound:
  "d \<in> set (definitions (scan_lines initial_state 0 ls)) \<Longrightarrow> def_line d < length ls"
  using scan_lines_wf [of "[]" ls initial_state]
  by (auto simp: defs_wf_def initial_state_def)

lemma scan_line_toggle:
  "toggles t \<Longrightarrow> definitions (scan_line s t i) = definitions s"
  by (simp add: scan_line_def toggles_def Let_def)

lemma last_toggle:
  assumes "odd (length (filter toggles ls))"
  shows "\<exists>pre t rest. ls = pre @ t # rest \<and> toggles t \<and> (\<forall>r \<in> set rest. \<not> toggles r) \<and>
           odd (length (filter toggles (pre @ [t])))"
proof -
  from assms have "filter toggles ls \<noteq> []"
    by (cases "filter toggles ls") auto
  then have "\<exists>x \<in> set ls. toggles x"
    by (simp add: filter_empty_conv)
  from split_list_last_prop [OF this] obtain pre t rest where
    d: "ls = pre @ t # rest" "toggles t" "\<forall>r \<in> set rest. \<not> toggles r"
    by blast
  from d(3) have "filter toggles rest = []"
    by (simp add: filter_empty_conv)
  with assms d(1) have "odd (length (filter toggles (pre @ [t])))"
    by simp
  with d show ?thesis by blast
qed

lemma unterminated_block_comment:
  assumes "odd (length (filter toggles (split_newline t)))"
  shows "\<exists>pre q rest. split_newline t = pre @ q # rest \<and> toggles q \<and>
           (\<forall>r \<in> set rest. \<not> toggles r) \<and>
           parseGraphQLDefinitions t = definitions (scan_lines initial_state 0 pre) \<and>
           (\<forall>d \<in> set (parseGraphQLDefinitions t). def_line d < length pre)"
proof -
  from last_toggle [OF assms] obtain pre q rest where
    d: "split_newline t = pre @ q # rest" "toggles q" "\<forall>r \<in> set rest. \<not> toggles r"
      "odd (length (filter toggles (pre @ [q])))"
    by blast
  let ?s = "scan_lines initial_state 0 (pre @ [q])"
  from d(4) have "inMultiLineComment ?s"
    by (simp add: scan_lines_flag initial_state_def del: scan_lines.simps)
  from scan_lines_inside [OF this d(3), of "length (pre @ [q])"]
  have "definitions (scan_lines ?s (length (pre @ [q])) rest) = definitions ?s"
    by blast
  moreover have "definitions ?s = definitions (scan_lines initial_state 0 pre)"
    using d(2) by (simp add: scan_lines_append scan_line_toggle)
  moreover have "split_newline t = (pre @ [q]) @ rest"
    using d(1) by simp
  ultimately have eq: "parseGraphQLDefinitions t = definitions (scan_lines initial_state 0 pre)"
    unfolding parseGraphQLDefinitions_def
    using scan_lines_append [of initial_state 0 "pre @ [q]" rest] by simp
  have "\<forall>d \<in> set (parseGraphQLDefinitions t). def_line d < length pre"
    unfolding eq using scan_lines_bound by blast
  with d(1,2,3) eq show ?thesis by blast
qed

text \<open>
  C5. While the block-comment flag is set, every line is appended to the pending
  documentation and gives no declaration, whatever it holds. A line whose trimmed text holds
  the triple-quote delimiter exactly twice leaves the flag as it is. After the lines \<open>pre\<close> the
  flag is set exactly when an odd number of them toggle it; when that number is odd and no
  later line toggles, the rest of the document gives no declaration. So a document with an odd
  number of toggling lines has a last one, and every declaration of the document lies before
  it.
\<close>

theorem block_comment_swallows_lines:
  "(inMultiLineComment s \<longrightarrow>
      currentDoc (scan_line s l i) = currentDoc s @ [l] \<and>
      definitions (scan_line s l i) = definitions s) \<and>
   (count_triple_quotes (trim l) = 2 \<longrightarrow>
      inMultiLineComment (scan_line s l i) = inMultiLineComment s) \<and>
   inMultiLineComment (scan_lines initial_state 0 pre) = odd (length (filter toggles pre)) \<and>
   (split_newline text = pre @ rest \<and> odd (length (filter toggles pre)) \<and>
    (\<forall>r \<in> set rest. \<not> toggles r) \<longrightarrow>
      parseGraphQLDefinitions text = definitions (scan_lines initial_state 0 pre) \<and>
      (\<forall>d \<in> set (parseGraphQLDefinitions text). def_line d < length pre)) \<and>
   (odd (length (filter toggles (split_newline text))) \<longrightarrow>
      (\<exists>before q after. split_newline text = before @ q # after \<and> toggles q \<and>
         (\<forall>r \<in> set after. \<not> toggles r) \<and>
         parseGraphQLDefinitions text = definitions (scan_lines initial_state 0 before) \<and>
         (\<forall>d \<in> set (parseGraphQLDefinitions text). def_line d < length before)))"
proof -
  have inside: "inMultiLineComment s \<longrightarrow>
      currentDoc (scan_line s l i) = currentDoc s @ [l] \<and>
      definitions (scan_line s l i) = definitions s"
    using scan_line_inside [of s l i] by blast
  have twice: "count_triple_quotes (trim l) = 2 \<longrightarrow>
      inMultiLineComment (scan_line s l i) = inMultiLineComment s"
    by (simp add: scan_line_flag toggles_def)
  have flag: "inMultiLineComment (scan_lines initial_state 0 pre) = odd (length (filter toggles pre))"
    by (simp add: scan_lines_flag initial_state_def)
  have remainder: "split_newline text = pre @ rest \<and> odd (length (filter toggles pre)) \<and>
    (\<forall>r \<in> set rest. \<not> toggles r) \<longrightarrow>
      parseGraphQLDefinitions text = definitions (scan_lines initial_state 0 pre) \<and>
      (\<forall>d \<in> set (parseGraphQLDefinitions text). def_line d < length pre)"
  proof (intro impI)
    assume a: "split_newline text = pre @ rest \<and> odd (length (filter toggles pre)) \<and>
      (\<forall>r \<in> set rest. \<not> toggles r)"
    with flag have "inMultiLineComment (scan_lines initial_state 0 pre)"
      by simp
    from scan_lines_inside [OF this, of rest "length pre"] a
    have eq: "parseGraphQLDefinitions text = definitions (scan_lines initial_state 0 pre)"
      by (simp add: parseGraphQLDefinitions_def scan_lines_append)
    have "\<forall>d \<in> set (parseGraphQLDefinitions text). def_line d < length pre"
      unfolding eq using scan_lines_bound by blast
    with eq show "parseGraphQLDefinitions text = definitions (scan_lines initial_state 0 pre) \<and>
      (\<forall>d \<in> set (parseGraphQLDefinitions text). def_line d < length pre)"
      by blast
  qed
  have unterminated: "odd (length (filter toggles (split_newline text))) \<longrightarrow>
      (\<exists>before q after. split_newline text = before @ q # after \<and> toggles q \<and>
         (\<forall>r \<in> set after. \<not> toggles r) \<and>
         parseGraphQLDefinitions text = definitions (scan_lines initial_state 0 before) \<and>
         (\<forall>d \<in> set (parseGraphQLDefinitions text). def_line d < length before))"
    by (intro impI) (rule unterminated_block_comment)
  from inside twice flag remainder unterminated show ?thesis
    by (intro conjI)
qed

theorem block_comment_swallows_lines_witness:
  "parseGraphQLDefinitions
     (''type A'' @ [newline] @ triple_quote @ [newline] @ ''type B'' @ [newline] @ ''enum C'')
     = [\<lparr>def_kind = ''type'', def_name = ''A'', def_line = 0, def_text = ''type A'',
          def_documentation = None\<rparr>] \<and>
   definitionPattern ''type B'' = Some (''type'', ''B'') \<and>
   currentDoc (scan_line \<lparr>currentDoc = [triple_quote], inMultiLineComment = True,
                            definitions = []\<rparr> ''type B'' 2) = [triple_quote, ''type B''] \<and>
   definitions (scan_line \<lparr>currentDoc = [triple_quote], inMultiLineComment = True,
                            definitions = []\<rparr> ''type B'' 2) = [] \<and>
   inMultiLineComment (scan_line \<lparr>currentDoc = [triple_quote], inMultiLineComment = True,
                            definitions = []\<rparr> (triple_quote @ '' doc '' @ triple_quote) 2) = True"
proof -
  let ?pre = "[''type A'', triple_quote]"
  let ?rest = "[''type B'', ''enum C'']"
  let ?t = "''type A'' @ [newline] @ triple_quote @ [newline] @ ''type B'' @ [newline] @ ''enum C''"
  let ?s = "\<lparr>currentDoc = [triple_quote], inMultiLineComment = True, definitions = []\<rparr>"
  let ?q = "triple_quote @ '' doc '' @ triple_quote"
  have sp: "split_newline ?t = ?pre @ ?rest"
    by code_simp
  have od: "odd (length (filter toggles ?pre))"
    by code_simp
  have nt: "\<forall>r \<in> set ?rest. \<not> toggles r"
    by code_simp
  have pd: "definitions (scan_lines initial_state 0 ?pre) =
      [\<lparr>def_kind = ''type'', def_name = ''A'', def_line = 0, def_text = ''type A'',
          def_documentation = None\<rparr>]"
    by code_simp
  have dp: "definitionPattern ''type B'' = Some (''type'', ''B'')"
    by code_simp
  have c2: "count_triple_quotes (trim ?q) = 2"
    by code_simp
  have fl: "inMultiLineComment ?s"
    by simp
  from block_comment_swallows_lines [of ?s "''type B''" 2 ?pre ?t ?rest] sp od nt
  have a: "parseGraphQLDefinitions ?t = definitions (scan_lines initial_state 0 ?pre)"
    and b: "currentDoc (scan_line ?s ''type B'' 2) = currentDoc ?s @ [''type B'']"
           "definitions (scan_line ?s ''type B'' 2) = definitions ?s"
    using fl by blast+
  from block_comment_swallows_lines [of ?s ?q 2 ?pre ?t ?rest] c2
  have c: "inMultiLineComment (scan_line ?s ?q 2) = inMultiLineComment ?s"
    by blast
  from a b c pd dp show ?thesis
    by simp
qed

lemma length_classify_lines [simp]: "length (classify_lines b ls) = length ls"
  by (induction ls arbitrary: b) simp_all

lemma classify_lines_append:
  "classify_lines b (xs @ ys) =
     classify_lines b xs @ classify_lines (foldl (\<lambda>b l. b \<noteq> toggles l) b xs) ys"
  by (induction xs arbitrary: b) simp_all

lemma pending_comments_snoc:
  "pending_comments (xs @ [(l, c)]) =
     (if c = Comment then pending_comments xs @ [l]
      else if c = Blank then pending_comments xs else [])"
  by (simp add: pending_comments_def)

lemma trim_empty_iff: "trim l = [] \<longleftrightarrow> (\<forall>c \<in> set l. is_white_space c)"
proof
  assume "trim l = []"
  then have "dropWhile is_white_space (rev (dropWhile is_white_space l)) = []"
    by (simp add: trim_def)
  then have all: "\<forall>c \<in> set (dropWhile is_white_space l). is_white_space c"
    by (simp add: dropWhile_eq_Nil_conv)
  have "dropWhile is_white_space l = []"
  proof (rule ccontr)
    assume ne: "dropWhile is_white_space l \<noteq> []"
    then have "\<not> is_white_space (hd (dropWhile is_white_space l))"
      by (rule hd_dropWhile)
    moreover from ne have "hd (dropWhile is_white_space l) \<in> set (dropWhile is_white_space l)"
      by simp
    ultimately show False using all by blast
  qed
  then show "\<forall>c \<in> set l. is_white_space c"
    by (simp add: dropWhile_eq_Nil_conv)
next
  assume "\<forall>c \<in> set l. is_white_space c"
  then show "trim l = []"
    unfolding trim_def by (auto dest: set_dropWhileD)
qed

lemma declaration_not_blank:
  assumes "definitionPattern l = Some (k, n)"
  shows "trim l \<noteq> []"
proof -
  from assms have k: "k \<in> set kind_keywords" and sw: "startsWith l k"
    by (simp_all add: definitionPattern_iff)
  from k have "k \<noteq> []"
    by (auto simp: kind_keywords_def)
  then have "hd k \<in> set k" by simp
  with keyword_chars [OF k] have "\<not> is_white_space (hd k)" by blast
  moreover from sw \<open>k \<noteq> []\<close> have "hd k \<in> set l"
    by (metis \<open>hd k \<in> set k\<close> in_set_takeD startsWith_def)
  ultimately show ?thesis
    unfolding trim_empty_iff by blast
qed

lemma comments_since_reset_append:
  "i \<le> length pre \<Longrightarrow> comments_since_reset (pre @ ls) i = comments_since_reset pre i"
  by (simp add: comments_since_reset_def)

lemma comments_since_reset_snoc:
  "comments_since_reset (pre @ [l]) (Suc (length pre)) =
     (let c = classify (foldl (\<lambda>b l. b \<noteq> toggles l) False pre) l
      in if c = Comment then comments_since_reset pre (length pre) @ [l]
         else if c = Blank then comments_since_reset pre (length pre) else [])"
  by (simp add: comments_since_reset_def classify_lines_append pending_comments_snoc Let_def)

lemma classify_lines_nth_append:
  "i < length pre \<Longrightarrow> classify_lines False (pre @ ls) ! i = classify_lines False pre ! i"
  by (simp add: classify_lines_append nth_append)

lemma classify_lines_nth_last:
  "classify_lines False (pre @ [l]) ! length pre =
     classify (foldl (\<lambda>b l. b \<noteq> toggles l) False pre) l"
  by (simp add: classify_lines_append nth_append)

lemma doc_inv_old:
  assumes "doc_inv pre s" and "d \<in> set (definitions s)"
  shows "def_line d < length (pre @ [l]) \<and>
     classify_lines False (pre @ [l]) ! def_line d = Declaration \<and>
     def_documentation d = documentation_of (comments_since_reset (pre @ [l]) (def_line d))"
proof -
  from assms have lt: "def_line d < length pre"
    and c: "classify_lines False pre ! def_line d = Declaration"
    and doc: "def_documentation d = documentation_of (comments_since_reset pre (def_line d))"
    by (auto simp: doc_inv_def)
  from lt have "comments_since_reset (pre @ [l]) (def_line d) = comments_since_reset pre (def_line d)"
    by (simp add: comments_since_reset_append)
  with lt c doc show ?thesis
    by (simp add: classify_lines_nth_append)
qed

lemma scan_line_cases:
  "scan_line s l i =
     (case classify (inMultiLineComment s) l of
        Comment \<Rightarrow> s\<lparr>currentDoc := currentDoc s @ [l],
                      inMultiLineComment := (inMultiLineComment s \<noteq> toggles l)\<rparr>
      | Declaration \<Rightarrow>
          s\<lparr>definitions := definitions s @
               [\<lparr>def_kind = fst (the (definitionPattern l)),
                 def_name = snd (the (definitionPattern l)), def_line = i,
                 def_text = trim l,
                 def_documentation = documentation_of (currentDoc s)\<rparr>],
             currentDoc := []\<rparr>
      | Blank \<Rightarrow> s
      | Stray \<Rightarrow> s\<lparr>currentDoc := []\<rparr>)"
  by (auto simp: scan_line_def classify_def toggles_def documentation_of_def Let_def
      split: option.splits)

lemma doc_inv_step:
  assumes inv: "doc_inv pre s"
  shows "doc_inv (pre @ [l]) (scan_line s l (length pre))"
proof -
  let ?b = "foldl (\<lambda>b l. b \<noteq> toggles l) False pre"
  let ?c = "classify ?b l"
  from inv have b: "inMultiLineComment s = ?b" and cd: "currentDoc s = comments_since_reset pre (length pre)"
    by (simp_all add: doc_inv_def)
  note old = doc_inv_old [OF inv, of _ l]
  have run: "comments_since_reset (pre @ [l]) (length (pre @ [l])) =
      (if ?c = Comment then currentDoc s @ [l] else if ?c = Blank then currentDoc s else [])"
    using comments_since_reset_snoc [of pre l] by (simp add: cd Let_def)
  have not_toggle: "?c \<noteq> Comment \<Longrightarrow> \<not> toggles l"
    by (auto simp: classify_def toggles_def)
  show ?thesis
  proof (cases ?c)
    case Comment
    then show ?thesis
      unfolding doc_inv_def using old run b
      by (simp add: scan_line_cases)
  next
    case Declaration
    have new: "classify_lines False (pre @ [l]) ! length pre = Declaration"
      using Declaration by (simp add: classify_lines_nth_last)
    have "comments_since_reset (pre @ [l]) (length pre) = currentDoc s"
      by (simp add: comments_since_reset_append cd)
    with Declaration show ?thesis
      unfolding doc_inv_def using old run b new not_toggle
      by (auto simp: scan_line_cases)
  next
    case Blank
    then show ?thesis
      unfolding doc_inv_def using old run b not_toggle
      by (simp add: scan_line_cases)
  next
    case Stray
    then show ?thesis
      unfolding doc_inv_def using old run b not_toggle
      by (simp add: scan_line_cases)
  qed
qed

lemma doc_inv_scan_lines:
  "doc_inv pre s \<Longrightarrow> doc_inv (pre @ ls) (scan_lines s (length pre) ls)"
proof (induction ls arbitrary: pre s)
  case Nil
  then show ?case by simp
next
  case (Cons l ls)
  from doc_inv_step [OF Cons.prems, of l]
  have "doc_inv ((pre @ [l]) @ ls) (scan_lines (scan_line s l (length pre)) (length (pre @ [l])) ls)"
    by (rule Cons.IH)
  then show ?case by simp
qed

lemma doc_inv_parse:
  assumes "d \<in> set (parseGraphQLDefinitions t)"
  shows "classify_lines False (split_newline t) ! def_line d = Declaration"
    and "def_documentation d = documentation_of (comments_since_reset (split_newline t) (def_line d))"
proof -
  have "doc_inv [] initial_state"
    by (simp add: doc_inv_def initial_state_def comments_since_reset_def pending_comments_def)
  from doc_inv_scan_lines [OF this, of "split_newline t"]
  have "doc_inv (split_newline t) (scan_lines initial_state 0 (split_newline t))"
    by simp
  with assms show "classify_lines False (split_newline t) ! def_line d = Declaration"
    and "def_documentation d = documentation_of (comments_since_reset (split_newline t) (def_line d))"
    by (simp_all add: doc_inv_def parseGraphQLDefinitions_def)
qed

lemma takeWhile_three:
  "\<forall>x \<in> set bs. R x \<Longrightarrow> \<forall>x \<in> set cs. R x \<Longrightarrow> takeWhile R rest = [] \<Longrightarrow>
     takeWhile R (bs @ cs @ rest) = bs @ cs"
  by (simp add: takeWhile_append2)

lemma filter_takeWhile_run:
  assumes disj: "\<And>x. Q x \<Longrightarrow> \<not> P x"
    and stop: "dropWhile P (dropWhile Q xs) = [] \<or> \<not> Q (hd (dropWhile P (dropWhile Q xs)))"
  shows "filter P (takeWhile (\<lambda>x. P x \<or> Q x) xs) = takeWhile P (dropWhile Q xs)"
proof -
  let ?bs = "takeWhile Q xs"
  let ?ys = "dropWhile Q xs"
  let ?cs = "takeWhile P ?ys"
  let ?rest = "dropWhile P ?ys"
  have bs: "\<forall>x \<in> set ?bs. Q x" and cs: "\<forall>x \<in> set ?cs. P x"
    by (auto dest: set_takeWhileD)
  have rest: "takeWhile (\<lambda>x. P x \<or> Q x) ?rest = []"
  proof (cases ?rest)
    case Nil
    show ?thesis unfolding Nil by simp
  next
    case (Cons r rs)
    have "?rest \<noteq> []" unfolding Cons by simp
    then have "\<not> P (hd ?rest)" by (rule hd_dropWhile)
    moreover from stop \<open>?rest \<noteq> []\<close> have "\<not> Q (hd ?rest)" by blast
    ultimately have "\<not> P r" "\<not> Q r" unfolding Cons by simp_all
    then show ?thesis unfolding Cons by simp
  qed
  have "takeWhile (\<lambda>x. P x \<or> Q x) xs = takeWhile (\<lambda>x. P x \<or> Q x) (?bs @ ?cs @ ?rest)"
    by simp
  also have "\<dots> = ?bs @ ?cs"
    using bs cs rest by (intro takeWhile_three) auto
  finally have "takeWhile (\<lambda>x. P x \<or> Q x) xs = ?bs @ ?cs" .
  moreover have "filter P ?bs = []"
    using bs disj by (auto simp: filter_empty_conv)
  moreover have "filter P ?cs = ?cs"
    using cs by (simp add: filter_id_conv)
  ultimately show ?thesis by simp
qed

lemma comments_since_reset_contiguous:
  assumes "run_starts_after_content ls i"
  shows "comments_since_reset ls i = contiguous_run ls i"
proof -
  let ?xs = "rev (zip (take i ls) (classify_lines False (take i ls)))"
  let ?P = "\<lambda>(l :: string, c). c = Comment"
  let ?Q = "\<lambda>(l :: string, c). c = Blank"
  from assms have stop: "dropWhile ?P (dropWhile ?Q ?xs) = [] \<or>
      \<not> ?Q (hd (dropWhile ?P (dropWhile ?Q ?xs)))"
    by (auto simp: run_starts_after_content_def split: list.splits)
  have "filter ?P (takeWhile (\<lambda>x. ?P x \<or> ?Q x) ?xs) = takeWhile ?P (dropWhile ?Q ?xs)"
    by (rule filter_takeWhile_run [OF _ stop]) auto
  moreover have "(\<lambda>x. ?P x \<or> ?Q x) = (\<lambda>(l, c). c = Comment \<or> c = Blank)"
    by auto
  ultimately show ?thesis
    by (simp add: comments_since_reset_def pending_comments_def contiguous_run_def)
qed

text \<open>
  C3. As stated, the claim fails in two places. A blank line inside a block comment is
  appended to the pending documentation, so the scanner state changes and the documentation of
  the next declaration holds the blank line. And outside a block comment a blank line between
  two comment lines does not end the run: for the lines \<^verbatim>\<open># a\<close>, an empty line, \<^verbatim>\<open># b\<close> and
  \<^verbatim>\<open>type T\<close> the documentation holds both comment lines, where the contiguous run immediately
  before the declaration is \<^verbatim>\<open># b\<close> alone.
\<close>

theorem blank_line_inside_block_comment_counterexample:
  "trim [] = [] \<and>
   scan_lines initial_state 0 [triple_quote]
     = \<lparr>currentDoc = [triple_quote], inMultiLineComment = True, definitions = []\<rparr> \<and>
   scan_line \<lparr>currentDoc = [triple_quote], inMultiLineComment = True, definitions = []\<rparr> [] 1
     = \<lparr>currentDoc = [triple_quote, []], inMultiLineComment = True, definitions = []\<rparr> \<and>
   scan_line \<lparr>currentDoc = [triple_quote], inMultiLineComment = True, definitions = []\<rparr> [] 1
     \<noteq> \<lparr>currentDoc = [triple_quote], inMultiLineComment = True, definitions = []\<rparr> \<and>
   parseGraphQLDefinitions
     (triple_quote @ [newline] @ [newline] @ triple_quote @ [newline] @ ''type A'')
     = [\<lparr>def_kind = ''type'', def_name = ''A'', def_line = 3, def_text = ''type A'',
          def_documentation = Some (triple_quote @ [newline] @ [newline] @ triple_quote)\<rparr>] \<and>
   parseGraphQLDefinitions
     (triple_quote @ [newline] @ triple_quote @ [newline] @ ''type A'')
     = [\<lparr>def_kind = ''type'', def_name = ''A'', def_line = 2, def_text = ''type A'',
          def_documentation = Some (triple_quote @ [newline] @ triple_quote)\<rparr>] \<and>
   parseGraphQLDefinitions (''# a'' @ [newline] @ [newline] @ ''# b'' @ [newline] @ ''type T'')
     = [\<lparr>def_kind = ''type'', def_name = ''T'', def_line = 3, def_text = ''type T'',
          def_documentation = Some (''# a'' @ [newline] @ ''# b'')\<rparr>] \<and>
   contiguous_run [''# a'', [], ''# b'', ''type T''] 3 = [''# b''] \<and>
   Some (''# a'' @ [newline] @ ''# b'') \<noteq> Some (join_newline [''# b''])"
  by code_simp

text \<open>
  C3. (amended) The documentation of a declaration is the comment lines before it since
  the last declaration or other non-empty line that is not a comment, joined by newline, and
  none when there are none; blank lines among them are skipped. It is the contiguous run of
  comment lines immediately before the declaration whenever the line before that run is not
  blank. A non-empty line that is neither a comment nor a declaration resets the pending
  lines. A line that is empty after trimming changes no scanner state when the scanner is
  outside a block comment; inside a block comment it is appended to the pending lines like
  every other line.
\<close>

theorem documentation_is_comments_since_reset:
  "(\<forall>d \<in> set (parseGraphQLDefinitions text).
      classify_lines False (split_newline text) ! def_line d = Declaration \<and>
      def_documentation d =
        (if comments_since_reset (split_newline text) (def_line d) = [] then None
         else Some (join_newline (comments_since_reset (split_newline text) (def_line d)))) \<and>
      (run_starts_after_content (split_newline text) (def_line d) \<longrightarrow>
         def_documentation d =
           (if contiguous_run (split_newline text) (def_line d) = [] then None
            else Some (join_newline (contiguous_run (split_newline text) (def_line d)))))) \<and>
   (classify (inMultiLineComment s) l = Stray \<longrightarrow> scan_line s l i = s\<lparr>currentDoc := []\<rparr>) \<and>
   (trim l = [] \<and> \<not> inMultiLineComment s \<longrightarrow> scan_line s l i = s) \<and>
   (trim l = [] \<and> inMultiLineComment s \<longrightarrow>
      scan_line s l i = s\<lparr>currentDoc := currentDoc s @ [l]\<rparr>)"
proof (intro conjI ballI impI)
  fix d assume d: "d \<in> set (parseGraphQLDefinitions text)"
  from doc_inv_parse(1) [OF d]
  show "classify_lines False (split_newline text) ! def_line d = Declaration" .
  from doc_inv_parse(2) [OF d]
  show doc: "def_documentation d =
        (if comments_since_reset (split_newline text) (def_line d) = [] then None
         else Some (join_newline (comments_since_reset (split_newline text) (def_line d))))"
    by (simp add: documentation_of_def)
  assume "run_starts_after_content (split_newline text) (def_line d)"
  from comments_since_reset_contiguous [OF this] doc
  show "def_documentation d =
           (if contiguous_run (split_newline text) (def_line d) = [] then None
            else Some (join_newline (contiguous_run (split_newline text) (def_line d))))"
    by simp
next
  assume "classify (inMultiLineComment s) l = Stray"
  then show "scan_line s l i = s\<lparr>currentDoc := []\<rparr>"
    by (simp add: scan_line_cases)
next
  assume a: "trim l = [] \<and> \<not> inMultiLineComment s"
  then have "definitionPattern l = None"
    using declaration_not_blank [of l] by (cases "definitionPattern l") auto
  with a have "classify (inMultiLineComment s) l = Blank"
    by (simp add: classify_def startsWith_def triple_quote_def)
  then show "scan_line s l i = s"
    by (simp add: scan_line_cases)
next
  assume a: "trim l = [] \<and> inMultiLineComment s"
  then have "classify (inMultiLineComment s) l = Comment" and "\<not> toggles l"
    by (simp_all add: classify_def toggles_def startsWith_def triple_quote_def)
  with a show "scan_line s l i = s\<lparr>currentDoc := currentDoc s @ [l]\<rparr>"
    by (simp add: scan_line_cases)
qed

theorem documentation_is_comments_since_reset_witness:
  "parseGraphQLDefinitions
     (''# the user'' @ [newline] @ ''# of it'' @ [newline] @ ''  '' @ [newline] @ ''type A {'')
     = [\<lparr>def_kind = ''type'', def_name = ''A'', def_line = 3, def_text = ''type A {'',
          def_documentation = Some (''# the user'' @ [newline] @ ''# of it'')\<rparr>] \<and>
   comments_since_reset [''# the user'', ''# of it'', ''  '', ''type A {''] 3
     = [''# the user'', ''# of it''] \<and>
   contiguous_run [''# the user'', ''# of it'', ''  '', ''type A {''] 3
     = [''# the user'', ''# of it''] \<and>
   scan_line \<lparr>currentDoc = [''# the user'', ''# of it''], inMultiLineComment = False,
               definitions = []\<rparr> ''  '' 2
     = \<lparr>currentDoc = [''# the user'', ''# of it''], inMultiLineComment = False,
         definitions = []\<rparr> \<and>
   scan_line \<lparr>currentDoc = [''# the user'', ''# of it''], inMultiLineComment = False,
               definitions = []\<rparr> ''id: ID'' 2
     = \<lparr>currentDoc = [], inMultiLineComment = False, definitions = []\<rparr> \<and>
   def_documentation
     \<lparr>def_kind = ''type'', def_name = ''A'', def_line = 3, def_text = ''type A {'',
       def_documentation = Some (''# the user'' @ [newline] @ ''# of it'')\<rparr>
     = Some (join_newline (contiguous_run [''# the user'', ''# of it'', ''  '', ''type A {''] 3)) \<and>
   comments_since_reset [''# a'', [], ''# b'', ''type T''] 3 = [''# a'', ''# b''] \<and>
   def_documentation
     \<lparr>def_kind = ''type'', def_name = ''T'', def_line = 3, def_text = ''type T'',
       def_documentation = Some (''# a'' @ [newline] @ ''# b'')\<rparr>
     = Some (join_newline [''# a'', ''# b''])"
proof -
  let ?t = "''# the user'' @ [newline] @ ''# of it'' @ [newline] @ ''  '' @ [newline] @ ''type A {''"
  let ?ls = "[''# the user'', ''# of it'', ''  '', ''type A {'']"
  let ?run = "[''# the user'', ''# of it'']"
  let ?s = "\<lparr>currentDoc = ?run, inMultiLineComment = False, definitions = []\<rparr>"
  let ?d = "\<lparr>def_kind = ''type'', def_name = ''A'', def_line = 3, def_text = ''type A {'',
          def_documentation = Some (''# the user'' @ [newline] @ ''# of it'')\<rparr>"
  let ?t2 = "''# a'' @ [newline] @ [newline] @ ''# b'' @ [newline] @ ''type T''"
  let ?ls2 = "[''# a'', [], ''# b'', ''type T'']"
  let ?d2 = "\<lparr>def_kind = ''type'', def_name = ''T'', def_line = 3, def_text = ''type T'',
          def_documentation = Some (''# a'' @ [newline] @ ''# b'')\<rparr>"
  have sp: "split_newline ?t = ?ls"
    by code_simp
  have p: "parseGraphQLDefinitions ?t = [?d]"
    by code_simp
  have r: "comments_since_reset ?ls 3 = ?run"
    by code_simp
  have c: "contiguous_run ?ls 3 = ?run"
    by code_simp
  have after: "run_starts_after_content ?ls 3"
    by code_simp
  have bl: "trim ''  '' = [] \<and> \<not> inMultiLineComment ?s"
    by code_simp
  have st: "classify (inMultiLineComment ?s) ''id: ID'' = Stray"
    by code_simp
  have sp2: "split_newline ?t2 = ?ls2"
    by code_simp
  have p2: "parseGraphQLDefinitions ?t2 = [?d2]"
    by code_simp
  have r2: "comments_since_reset ?ls2 3 = [''# a'', ''# b'']"
    by code_simp
  note inst = documentation_is_comments_since_reset [of ?t ?s _ 2]
  from inst [of "''  ''"] bl have one: "scan_line ?s ''  '' 2 = ?s"
    by blast
  from inst [of "''id: ID''"] st have two: "scan_line ?s ''id: ID'' 2 = ?s\<lparr>currentDoc := []\<rparr>"
    by blast
  have m: "?d \<in> set (parseGraphQLDefinitions ?t)"
    unfolding p by simp
  have dl: "def_line ?d = 3"
    by simp
  from after have after': "run_starts_after_content (split_newline ?t) (def_line ?d)"
    unfolding sp dl .
  from inst [of "''  ''"] m after' have raw: "def_documentation ?d =
        (if contiguous_run (split_newline ?t) (def_line ?d) = [] then None
         else Some (join_newline (contiguous_run (split_newline ?t) (def_line ?d))))"
    by blast
  have ne: "contiguous_run ?ls 3 \<noteq> []"
    unfolding c by simp
  from raw have doc: "def_documentation ?d = Some (join_newline (contiguous_run ?ls 3))"
    unfolding sp dl using ne by simp
  have m2: "?d2 \<in> set (parseGraphQLDefinitions ?t2)"
    unfolding p2 by simp
  have dl2: "def_line ?d2 = 3"
    by simp
  from documentation_is_comments_since_reset [of ?t2 ?s "''  ''" 2] m2
  have raw2: "def_documentation ?d2 =
        (if comments_since_reset (split_newline ?t2) (def_line ?d2) = [] then None
         else Some (join_newline (comments_since_reset (split_newline ?t2) (def_line ?d2))))"
    by blast
  from raw2 have doc2: "def_documentation ?d2 = Some (join_newline [''# a'', ''# b''])"
    unfolding sp2 dl2 r2 by simp
  from two have two': "scan_line ?s ''id: ID'' 2 =
      \<lparr>currentDoc = [], inMultiLineComment = False, definitions = []\<rparr>"
    by simp
  from p r c one two' doc r2 doc2 show ?thesis
    by (intro conjI)
qed

end
